theory Spec2Isabelle
  imports Main "HOL-Library.Word" "HOL-Library.Product_Lexorder" "HOL-Library.Multiset"
begin

unbundle bit_operations_syntax

section \<open>OneNote to Markdown converter: a shallow embedding of onenote_markdown.py\<close>

text \<open>
  The theory follows the Python source function by function. Python strings are modelled
  as \<^typ>\<open>string\<close>; a character stands for the code point of the same number, so the
  model covers the code points 0 to 255. Python integers are \<^typ>\<open>int\<close>, counters
  that only count up from zero are \<^typ>\<open>nat\<close>. A \<open>pathlib.Path\<close> is the list of
  its components, and \<open>p / name\<close> appends one component. Calls that leave the
  program (the Graph API, BeautifulSoup's parser, html2text, hashlib, the file system)
  are fields of an environment record; a call that can raise returns a sum whose left
  injection carries the exception's message. The methods that change the converter or
  the file system are written as functions that pass the state on, which is how they run
  while one page is processed at a time; the executor, whose five workers take their
  steps in any order on the same state, is modelled after them as a pool of tasks that
  is run by a schedule.
\<close>

subsection \<open>String helpers\<close>

text \<open>
  \<open>str.replace\<close> with one-character arguments, \<open>re.sub\<close> with the class of the
  code points 0x00 to 0x1f and 0x7f to 0x9f and an empty replacement,
  \<open>re.sub(r'c+', 'c', s)\<close> for a single character \<open>c\<close>, \<open>str.strip(chars)\<close>,
  \<open>str.startswith\<close>, the substring test \<open>needle in s\<close> and \<open>sep.join\<close>.
\<close>

type_synonym path = "string list"

definition replace_char :: "char \<Rightarrow> char \<Rightarrow> string \<Rightarrow> string" where
  "replace_char a b s = map (\<lambda>c. if c = a then b else c) s"

definition is_control :: "char \<Rightarrow> bool" where
  "is_control c \<longleftrightarrow>
     (of_char c :: nat) \<le> 0x1f \<or> (0x7f \<le> (of_char c :: nat) \<and> (of_char c :: nat) \<le> 0x9f)"

definition remove_control :: "string \<Rightarrow> string" where
  "remove_control s = filter (\<lambda>c. \<not> is_control c) s"

fun collapse_runs :: "'a \<Rightarrow> 'a list \<Rightarrow> 'a list" where
  "collapse_runs d [] = []"
| "collapse_runs d [c] = [c]"
| "collapse_runs d (a # b # s) =
     (if a = d \<and> b = d then collapse_runs d (b # s) else a # collapse_runs d (b # s))"

definition strip_by :: "('a \<Rightarrow> bool) \<Rightarrow> 'a list \<Rightarrow> 'a list" where
  "strip_by P s = rev (dropWhile P (rev (dropWhile P s)))"

fun starts_with :: "string \<Rightarrow> string \<Rightarrow> bool" where
  "starts_with s [] = True"
| "starts_with [] (p # ps) = False"
| "starts_with (c # s) (p # ps) = (c = p \<and> starts_with s ps)"

fun contains_str :: "string \<Rightarrow> string \<Rightarrow> bool" where
  "contains_str [] needle = (needle = [])"
| "contains_str (c # s) needle = (starts_with (c # s) needle \<or> contains_str s needle)"

fun join_with :: "string \<Rightarrow> string list \<Rightarrow> string" where
  "join_with sep [] = []"
| "join_with sep [x] = x"
| "join_with sep (x # y # xs) = x @ sep @ join_with sep (y # xs)"

text \<open>\<open>str(n)\<close> for a non-negative integer: its decimal digits.\<close>

definition digit_char :: "nat \<Rightarrow> char" where
  "digit_char n = char_of (48 + n)"

fun dec :: "nat \<Rightarrow> string" where
  "dec n = (if n < 10 then [digit_char n] else dec (n div 10) @ [digit_char (n mod 10)])"

declare dec.simps [simp del]

text \<open>
  \<open>str.lower\<close> on the code points below 256: the ASCII capitals and the Latin-1 capitals
  (all of 0xC0 to 0xDE but the multiplication sign 0xD7) move up by 32.
\<close>

definition lower_char :: "char \<Rightarrow> char" where
  "lower_char c =
     (let n = (of_char c :: nat)
      in if (65 \<le> n \<and> n \<le> 90) \<or> (192 \<le> n \<and> n \<le> 222 \<and> n \<noteq> 215)
         then char_of (n + 32) else c)"

text \<open>The characters of the class \<open>[a-z0-9.-]\<close>.\<close>

definition image_safe :: "char \<Rightarrow> bool" where
  "image_safe c \<longleftrightarrow>
     (let n = (of_char c :: nat)
      in (97 \<le> n \<and> n \<le> 122) \<or> (48 \<le> n \<and> n \<le> 57) \<or> c = CHR ''.'' \<or> c = CHR ''-'')"

subsection \<open>Filename sanitizers\<close>

text \<open>
  \<open>sanitize_filename\<close> (lines 280 to 306) and \<open>sanitize_image_filename\<close> (lines 308
  to 337), one \<open>let\<close> binding for each assignment to \<open>filename\<close>.
\<close>

definition sanitize_filename :: "string \<Rightarrow> string" where
  "sanitize_filename filename =
     (if filename = [] then ''untitled''
      else let f1 = replace_char (CHR 0x5C) CHR ''-'' (replace_char CHR ''/'' CHR ''-'' filename);
               f2 = remove_control f1;
               f3 = collapse_runs CHR ''-'' f2;
               f4 = collapse_runs CHR '' '' f3;
               f5 = strip_by (\<lambda>c. c \<in> set '' .-'') f4
           in if f5 = [] then ''untitled'' else f5)"

definition sanitize_image_filename :: "string \<Rightarrow> string" where
  "sanitize_image_filename filename =
     (if filename = [] then ''untitled''
      else let f1 = replace_char (CHR 0x5C) CHR ''-'' (replace_char CHR ''/'' CHR ''-'' filename);
               f2 = map lower_char f1;
               f3 = map (\<lambda>c. if image_safe c then c else CHR ''-'') f2;
               f4 = remove_control f3;
               f5 = collapse_runs CHR ''-'' f4;
               f6 = strip_by (\<lambda>c. c \<in> set ''.-'') f5
           in if f6 = [] then ''untitled'' else f6)"

text \<open>
  Two predicates used to state what a sanitized name looks like: no two neighbours both
  equal to \<open>d\<close>, and the shape of a name each sanitizer leaves unchanged.
\<close>

fun no_adj :: "'a \<Rightarrow> 'a list \<Rightarrow> bool" where
  "no_adj d [] = True"
| "no_adj d [c] = True"
| "no_adj d (a # b # s) = (\<not> (a = d \<and> b = d) \<and> no_adj d (b # s))"

definition good_name :: "string \<Rightarrow> bool" where
  "good_name s \<longleftrightarrow>
     s \<noteq> [] \<and> list_all (\<lambda>c. c \<noteq> CHR ''/'' \<and> c \<noteq> CHR 0x5C \<and> \<not> is_control c) s \<and>
     no_adj CHR ''-'' s \<and> no_adj CHR '' '' s \<and>
     hd s \<notin> set '' .-'' \<and> last s \<notin> set '' .-''"

definition good_image_name :: "string \<Rightarrow> bool" where
  "good_image_name s \<longleftrightarrow>
     s \<noteq> [] \<and> list_all image_safe s \<and> no_adj CHR ''-'' s \<and>
     hd s \<notin> set ''.-'' \<and> last s \<notin> set ''.-''"

subsection \<open>Markdown clean-up\<close>

text \<open>
  The last part of \<open>convert_page_to_markdown\<close> (lines 459 to 476).
  \<open>str.splitlines\<close> breaks at line feed, vertical tab, form feed, carriage return
  (a carriage return and a line feed together are one break), the separators 0x1c to 0x1e
  and next-line 0x85, and yields no empty last line. \<open>str.strip()\<close> removes, at both
  ends, the characters for which \<open>str.isspace\<close> holds.
\<close>

definition is_linebreak :: "char \<Rightarrow> bool" where
  "is_linebreak c \<longleftrightarrow>
     (let n = (of_char c :: nat) in (10 \<le> n \<and> n \<le> 13) \<or> (28 \<le> n \<and> n \<le> 30) \<or> n = 133)"

definition is_space :: "char \<Rightarrow> bool" where
  "is_space c \<longleftrightarrow>
     (let n = (of_char c :: nat)
      in (9 \<le> n \<and> n \<le> 13) \<or> (28 \<le> n \<and> n \<le> 32) \<or> n = 133 \<or> n = 160)"

fun splitlines_from :: "string \<Rightarrow> string \<Rightarrow> string list" where
  "splitlines_from cur [] = (if cur = [] then [] else [cur])"
| "splitlines_from cur [c] = (if is_linebreak c then [cur] else [cur @ [c]])"
| "splitlines_from cur (c # d # s) =
     (if c = CHR 0x0D \<and> d = CHR 0x0A then cur # splitlines_from [] s
      else if is_linebreak c then cur # splitlines_from [] (d # s)
      else splitlines_from (cur @ [c]) (d # s))"

definition splitlines :: "string \<Rightarrow> string list" where
  "splitlines s = splitlines_from [] s"

text \<open>
  The \<open>for line in lines\<close> loop with its accumulator \<open>cleaned\<close> and its flag
  \<open>prev_blank\<close>; the two \<open>while\<close> loops that pop blank lines off the front and the
  back are \<open>dropWhile\<close> from either end.
\<close>

fun collapse_blank_loop :: "string list \<Rightarrow> bool \<Rightarrow> string list \<Rightarrow> string list" where
  "collapse_blank_loop cleaned prev_blank [] = cleaned"
| "collapse_blank_loop cleaned prev_blank (line # lines) =
     (if line = []
      then collapse_blank_loop (if \<not> prev_blank then cleaned @ [[]] else cleaned) True lines
      else collapse_blank_loop (cleaned @ [line]) False lines)"

definition cleanup_lines :: "string \<Rightarrow> string list" where
  "cleanup_lines markdown =
     (let lines = map (strip_by is_space) (splitlines markdown);
          cleaned = collapse_blank_loop [] False lines;
          cleaned1 = dropWhile (\<lambda>l. l = []) cleaned;
          cleaned2 = rev (dropWhile (\<lambda>l. l = []) (rev cleaned1))
      in cleaned2)"

definition cleanup_markdown :: "string \<Rightarrow> string" where
  "cleanup_markdown markdown = join_with [CHR 0x0A] (cleanup_lines markdown)"

subsection \<open>Parsed documents and the bold-span pass\<close>

text \<open>
  A BeautifulSoup tree: a text node, or a tag with its attribute dictionary (an
  association list, one entry for each key) and its contents. The parsed document is the
  list of its top-level nodes. \<open>attr_get\<close> is \<open>Tag.get(key, default)\<close> and
  \<open>attr_set\<close> is \<open>tag[key] = v\<close>.
\<close>

datatype html = Text string | Element string "(string \<times> string) list" "html list"

definition attr_get :: "(string \<times> string) list \<Rightarrow> string \<Rightarrow> string \<Rightarrow> string" where
  "attr_get attrs key dflt = (case map_of attrs key of Some v \<Rightarrow> v | None \<Rightarrow> dflt)"

fun attr_set :: "(string \<times> string) list \<Rightarrow> string \<Rightarrow> string \<Rightarrow> (string \<times> string) list" where
  "attr_set [] key v = [(key, v)]"
| "attr_set ((k, w) # attrs) key v =
     (if k = key then (k, v) # attrs else (k, w) # attr_set attrs key v)"

text \<open>
  \<open>_clean_machine_generated_alt_text\<close> (lines 384 to 388) and \<open>_convert_bold_spans\<close>
  (lines 390 to 401). Each is a loop over the elements \<open>find_all\<close> returned, changing
  one element at a time; as no step changes which elements are visited later, the loop is
  the recursion over the tree that treats every element once. For a span whose style
  matches, \<open>b.extend(span.contents)\<close> moves all children of the span under the new
  \<open>b\<close> tag, \<open>span.clear()\<close> leaves the span empty and \<open>span.append(b)\<close> makes
  \<open>b\<close> its only child.
\<close>

definition machine_alt_marker :: string where
  "machine_alt_marker = ''Machine generated alternative text:''"

fun clean_machine_generated_alt_text :: "html \<Rightarrow> html" where
  "clean_machine_generated_alt_text (Text t) = Text t"
| "clean_machine_generated_alt_text (Element tg attrs cs) =
     Element tg
       (if tg = ''img'' \<and> starts_with (attr_get attrs ''alt'' []) machine_alt_marker
        then attr_set attrs ''alt'' [] else attrs)
       (map clean_machine_generated_alt_text cs)"

definition is_bold_style :: "string \<Rightarrow> bool" where
  "is_bold_style style \<longleftrightarrow>
     contains_str style ''font-weight:bold'' \<or> contains_str style ''font-weight: 700''"

fun convert_bold_spans :: "html \<Rightarrow> html" where
  "convert_bold_spans (Text t) = Text t"
| "convert_bold_spans (Element tg attrs cs) =
     (if tg = ''span'' \<and> is_bold_style (attr_get attrs ''style'' [])
      then Element tg attrs [Element ''b'' [] (map convert_bold_spans cs)]
      else Element tg attrs (map convert_bold_spans cs))"

text \<open>
  Three observations of a tree, used to state what the pass does: the number of span
  elements with a bold style, the text of the tree (\<open>Tag.text\<close>), and whether every
  bold-styled span has a single child that is a \<open>b\<close> element without attributes.
\<close>

fun bold_span_count :: "html \<Rightarrow> nat" where
  "bold_span_count (Text t) = 0"
| "bold_span_count (Element tg attrs cs) =
     (if tg = ''span'' \<and> is_bold_style (attr_get attrs ''style'' []) then 1 else 0)
     + sum_list (map bold_span_count cs)"

fun text_of :: "html \<Rightarrow> string" where
  "text_of (Text t) = t"
| "text_of (Element tg attrs cs) = concat (map text_of cs)"

fun is_b_element :: "html \<Rightarrow> bool" where
  "is_b_element (Element tg attrs cs) = (tg = ''b'' \<and> attrs = [])"
| "is_b_element (Text t) = False"

fun bold_wrapped :: "html \<Rightarrow> bool" where
  "bold_wrapped (Text t) = True"
| "bold_wrapped (Element tg attrs cs) =
     ((if tg = ''span'' \<and> is_bold_style (attr_get attrs ''style'' [])
       then length cs = 1 \<and> is_b_element (hd cs) else True)
      \<and> list_all bold_wrapped cs)"

subsection \<open>Pages, the environment and the state\<close>

text \<open>
  A page record as the listing returns it (the fields named in \<open>$select\<close>; a missing
  \<open>level\<close> or \<open>order\<close> reads as 0, which is what \<open>page.get(key, 0)\<close> gives), a page
  with its \<open>children\<close> list as \<open>get_pages\<close> returns it, and one response of the
  listing: \<open>response.get("value", [])\<close> and \<open>response.get("@odata.count")\<close>.
\<close>

record page_info =
  pid :: string
  ptitle :: string
  plevel :: int
  porder :: int

datatype page = Page (info: page_info) (children: "page list")

record response =
  page_values :: "page_info list"
  odata_count :: "int option"

text \<open>
  What the program calls and does not define. \<open>list_pages env section_id skip\<close> is
  \<open>_make_request\<close> on the pages of a section with \<open>$top\<close> 100 and the given
  \<open>$skip\<close>; \<open>page_content\<close> is \<open>get_page_content\<close>; \<open>parse_html\<close> is the
  BeautifulSoup constructor; \<open>render_markdown\<close> stands for the rest of the document
  passes (the \<open>src\<close> of each downloaded image rewritten to its local path, links whose
  text is their address replaced by the address) followed by \<open>html2text\<close>;
  \<open>md5_digest\<close> is \<open>hashlib.md5\<close> of the encoded address; \<open>url_extension\<close> is
  \<open>os.path.splitext(urlparse(url).path)[1]\<close>, which raises on an address that
  \<open>urlparse\<close> rejects; \<open>head_content_type\<close> is the \<open>content-type\<close> header of a
  HEAD request (empty when absent); \<open>image_response\<close> says whether the GET request for
  an image or its \<open>raise_for_status\<close> raises; \<open>mkdir_error\<close> and \<open>open_error\<close> say
  whether creating a directory or opening a file for writing raises;
  \<open>transfer_error\<close> and \<open>write_error\<close> say whether writing the body of an image or
  the text of a Markdown file raises once the file is open.
\<close>

record env =
  list_pages :: "string \<Rightarrow> nat \<Rightarrow> string + response"
  access_token :: "string option"
  page_content :: "string \<Rightarrow> string + string"
  parse_html :: "string \<Rightarrow> string + html list"
  render_markdown :: "html list \<Rightarrow> string option list \<Rightarrow> bool \<Rightarrow> string + string"
  md5_digest :: "string \<Rightarrow> 128 word"
  url_extension :: "string \<Rightarrow> string + string"
  head_content_type :: "string \<Rightarrow> string + string"
  image_response :: "string \<Rightarrow> string option"
  transfer_error :: "string \<Rightarrow> path \<Rightarrow> string option"
  mkdir_error :: "path \<Rightarrow> string option"
  open_error :: "path \<Rightarrow> string option"
  write_error :: "path \<Rightarrow> string option"

text \<open>
  The mutable state: \<open>self.image_counter\<close> and the file system, kept as the lists of
  the directories created, the image files saved, the Markdown files written, and the
  files that were opened for writing and left empty or incomplete because the write
  raised, each in the order of the calls. A path that stands twice in a list was written
  twice, the second write replacing the first file.
\<close>

record state =
  image_counter :: nat
  dirs :: "path list"
  image_files :: "path list"
  markdown_files :: "(path \<times> string) list"
  partial_files :: "path list"

subsection \<open>Image download\<close>

text \<open>
  \<open>hexdigest\<close> prints the 128 bits of a digest as 32 hexadecimal digits, the most
  significant first; \<open>last_segment\<close> is \<open>s.split('/')[-1]\<close>.
\<close>

definition hex_digit :: "nat \<Rightarrow> char" where
  "hex_digit n = ''0123456789abcdef'' ! n"

definition hexdigest :: "128 word \<Rightarrow> string" where
  "hexdigest w = map (\<lambda>i. hex_digit (unat (drop_bit (4 * (31 - i)) w AND 15))) [0..<32]"

definition last_segment :: "string \<Rightarrow> string" where
  "last_segment s = rev (takeWhile (\<lambda>c. c \<noteq> CHR ''/'') (rev s))"

definition truthy_headers :: "(string \<times> string) list option \<Rightarrow> bool" where
  "truthy_headers headers \<longleftrightarrow> (case headers of None \<Rightarrow> False | Some h \<Rightarrow> h \<noteq> [])"

text \<open>
  \<open>download_image\<close> (lines 339 to 382) in four parts: the extension (lines 348 to
  364), which fails when \<open>urlparse\<close> or the HEAD request raises; the local file name
  (lines 343, 344 and 366) for a given value of the counter; \<open>save_image\<close>, which is
  what the function does after the increment on line 345 (lines 348 to 382: it reads
  \<open>self.image_counter\<close> on line 366, when the name is built); and the function
  itself, the increment followed by \<open>save_image\<close>. Every exception inside the function
  is caught there and makes it return \<open>None\<close>; the counter has been incremented by
  then, and a file that was opened before the exception stays where it is.
\<close>

definition image_extension ::
  "env \<Rightarrow> string \<Rightarrow> (string \<times> string) list option \<Rightarrow> string + string" where
  "image_extension env image_url headers =
     (case url_extension env image_url of
        Inl e \<Rightarrow> Inl e
      | Inr ext \<Rightarrow>
          (case (if ext = [] \<and> truthy_headers headers
                 then (case head_content_type env image_url of
                         Inl e \<Rightarrow> Inl e
                       | Inr content_type \<Rightarrow>
                           Inr (if contains_str content_type ''image/''
                                then ''.'' @ last_segment content_type else ext))
                 else Inr ext) of
             Inl e \<Rightarrow> Inl e
           | Inr ext1 \<Rightarrow>
               (let ext2 = (if ext1 = [] then ''.png'' else ext1);
                    ext3 = (if \<not> starts_with ext2 ''.'' then ''.'' @ ext2 else ext2);
                    ext4 = sanitize_filename (dropWhile (\<lambda>c. c = CHR ''.'') ext3);
                    ext5 = (if \<not> starts_with ext4 ''.'' then ''.'' @ ext4 else ext4)
                in Inr ext5)))"

definition local_image_name ::
  "env \<Rightarrow> string \<Rightarrow> string \<Rightarrow> (string \<times> string) list option \<Rightarrow> nat \<Rightarrow> string + string" where
  "local_image_name env image_url page_title headers counter =
     (let page_name = sanitize_image_filename page_title;
          url_hash = take 8 (hexdigest (md5_digest env image_url))
      in case image_extension env image_url headers of
           Inl e \<Rightarrow> Inl e
         | Inr ext \<Rightarrow> Inr (page_name @ ''_image_'' @ url_hash @ ''_'' @ dec counter @ ext))"

definition save_image ::
  "env \<Rightarrow> string \<Rightarrow> path \<Rightarrow> string \<Rightarrow> (string \<times> string) list option \<Rightarrow> state
     \<Rightarrow> string option \<times> state" where
  "save_image env image_url images_dir page_title headers st =
     (case local_image_name env image_url page_title headers (image_counter st) of
        Inl e \<Rightarrow> (None, st)
      | Inr local_filename \<Rightarrow>
          (let local_path = images_dir @ [local_filename]
           in case image_response env image_url of
                Some e \<Rightarrow> (None, st)
              | None \<Rightarrow>
                  (case open_error env local_path of
                     Some e \<Rightarrow> (None, st)
                   | None \<Rightarrow>
                       (case transfer_error env image_url local_path of
                          Some e \<Rightarrow>
                            (None, st\<lparr>partial_files := partial_files st @ [local_path]\<rparr>)
                        | None \<Rightarrow>
                            (Some (''images/'' @ local_filename),
                             st\<lparr>image_files := image_files st @ [local_path]\<rparr>)))))"

definition download_image ::
  "env \<Rightarrow> string \<Rightarrow> path \<Rightarrow> string \<Rightarrow> (string \<times> string) list option \<Rightarrow> state
     \<Rightarrow> string option \<times> state" where
  "download_image env image_url images_dir page_title headers st =
     save_image env image_url images_dir page_title headers
       (st\<lparr>image_counter := image_counter st + 1\<rparr>)"

text \<open>
  The image loop of \<open>convert_page_to_markdown\<close> (lines 415 to 447): the addresses of
  the \<open>img\<close> elements in document order, \<open>data-fullres-src\<close> before \<open>src\<close>, an
  element without address skipped; the bearer header for addresses of the Graph host;
  and the calls of \<open>download_image\<close> one after the other, as they run when no other
  page touches the counter in between (the pool further down takes the loop apart into
  the steps that can interleave).
\<close>

fun find_all_img :: "html \<Rightarrow> (string \<times> string) list list" where
  "find_all_img (Text t) = []"
| "find_all_img (Element tg attrs cs) =
     (if tg = ''img'' then [attrs] else []) @ concat (map find_all_img cs)"

definition img_url_of :: "(string \<times> string) list \<Rightarrow> string" where
  "img_url_of attrs =
     (case map_of attrs ''data-fullres-src'' of
        Some u \<Rightarrow> u
      | None \<Rightarrow> (case map_of attrs ''src'' of Some u \<Rightarrow> u | None \<Rightarrow> []))"

definition image_urls :: "html list \<Rightarrow> string list" where
  "image_urls soup = filter (\<lambda>u. u \<noteq> []) (map img_url_of (concat (map find_all_img soup)))"

definition image_headers :: "env \<Rightarrow> string \<Rightarrow> (string \<times> string) list option" where
  "image_headers env img_url =
     (case access_token env of
        None \<Rightarrow> None
      | Some token \<Rightarrow>
          if contains_str img_url ''graph.microsoft.com'' \<and> token \<noteq> []
          then Some [(''Authorization'', ''Bearer '' @ token)] else None)"

fun download_images ::
  "env \<Rightarrow> path \<Rightarrow> string \<Rightarrow> string list \<Rightarrow> state \<Rightarrow> string option list \<times> state" where
  "download_images env images_dir page_title [] st = ([], st)"
| "download_images env images_dir page_title (img_url # rest) st =
     (let (local_path, st1) =
            download_image env img_url images_dir page_title (image_headers env img_url) st;
          (paths, st2) = download_images env images_dir page_title rest st1
      in (local_path # paths, st2))"

text \<open>
  \<open>convert_page_to_markdown\<close> (lines 403 to 476): \<open>parse_page\<close> is its beginning
  (lines 406 to 412, the parser and the two passes over the tree), \<open>render_page\<close> its
  end (lines 449 to 476, with the local paths the image loop has found), and the image
  loop runs between them.
\<close>

definition parse_page :: "env \<Rightarrow> string \<Rightarrow> string + html list" where
  "parse_page env html_content =
     (case parse_html env html_content of
        Inl e \<Rightarrow> Inl e
      | Inr soup \<Rightarrow>
          Inr (map convert_bold_spans (map clean_machine_generated_alt_text soup)))"

definition render_page ::
  "env \<Rightarrow> html list \<Rightarrow> string option list \<Rightarrow> bool \<Rightarrow> string + string" where
  "render_page env soup local_paths is_child_page =
     (case render_markdown env soup local_paths is_child_page of
        Inl e \<Rightarrow> Inl e
      | Inr markdown \<Rightarrow> Inr (cleanup_markdown markdown))"

definition convert_page_to_markdown ::
  "env \<Rightarrow> string \<Rightarrow> path \<Rightarrow> string \<Rightarrow> bool \<Rightarrow> state \<Rightarrow> (string + string) \<times> state" where
  "convert_page_to_markdown env html_content images_dir page_title is_child_page st =
     (case parse_page env html_content of
        Inl e \<Rightarrow> (Inl e, st)
      | Inr soup \<Rightarrow>
          (let (local_paths, st1) =
                 download_images env images_dir page_title (image_urls soup) st
           in (render_page env soup local_paths is_child_page, st1)))"
subsection \<open>Listing the pages of a section\<close>

text \<open>
  The \<open>while True\<close> loop of \<open>get_pages\<close> (lines 157 to 216) with its variables
  \<open>all_pages\<close>, \<open>page_count\<close> and \<open>skip\<close>; \<open>page_size\<close> is 100. The loop
  returns when a request raises, when a batch is empty, or when the test
  \<open>total_count and page_count < total_count\<close> fails; it need not return at all, so
  its result is an option.
\<close>

partial_function (option) fetch_pages ::
  "(nat \<Rightarrow> string + response) \<Rightarrow> page_info list \<Rightarrow> nat \<Rightarrow> nat
     \<Rightarrow> (string + page_info list) option" where
  "fetch_pages request all_pages page_count skip =
     (case request skip of
        Inl e \<Rightarrow> Some (Inl e)
      | Inr response \<Rightarrow>
          if page_values response = [] then Some (Inr all_pages)
          else (case odata_count response of
                  None \<Rightarrow> Some (Inr (all_pages @ page_values response))
                | Some total_count \<Rightarrow>
                    if total_count \<noteq> 0
                       \<and> int (page_count + length (page_values response)) < total_count
                    then fetch_pages request (all_pages @ page_values response)
                           (page_count + length (page_values response)) (skip + 100)
                    else Some (Inr (all_pages @ page_values response))))"

text \<open>
  A listing endpoint that serves a fixed list of pages: the batch of at most 100 pages
  that starts at \<open>skip\<close>, with the number of all pages as the count when
  \<open>with_count\<close> is set and without a count otherwise.
\<close>

definition paging_server :: "page_info list \<Rightarrow> bool \<Rightarrow> nat \<Rightarrow> string + response" where
  "paging_server pages with_count skip =
     Inr \<lparr>page_values = take 100 (drop skip pages),
          odata_count = (if with_count then Some (int (length pages)) else None)\<rparr>"

definition numbered_page :: "nat \<Rightarrow> page_info" where
  "numbered_page i = \<lparr>pid = dec i, ptitle = ''Page '' @ dec i, plevel = 0, porder = int i\<rparr>"

definition section_of_101 :: "page_info list" where
  "section_of_101 = map numbered_page [0..<101]"

subsection \<open>Building the page tree\<close>

text \<open>
  The second half of \<open>get_pages\<close> (lines 221 to 253). The page dictionaries are shared
  objects that the loop mutates (\<open>parent['children'].append(page)\<close>), so the model
  keeps a store: a page object is named by its position in the sorted list, \<open>kids\<close>
  maps an object to its \<open>children\<close> list, \<open>root_pages\<close> is the list of the same name,
  and \<open>page_map\<close> is the dictionary from page ids to objects. A Python dictionary
  keeps the order in which its keys were first inserted, and assigning to a key that is
  present replaces the value where it stands: \<open>dict_set\<close>. \<open>find_parent\<close> is the
  inner loop over \<open>reversed(list(page_map.values()))\<close>, \<open>add_page\<close> the body of the
  outer loop for the page at position \<open>i\<close>, and \<open>build_upto ps k\<close> the state after
  the first \<open>k\<close> pages.
\<close>

fun dict_set :: "('k \<times> 'v) list \<Rightarrow> 'k \<Rightarrow> 'v \<Rightarrow> ('k \<times> 'v) list" where
  "dict_set [] k v = [(k, v)]"
| "dict_set ((k', v') # d) k v =
     (if k' = k then (k, v) # d else (k', v') # dict_set d k v)"

record tree_state =
  page_map :: "(string \<times> nat) list"
  kids :: "nat \<Rightarrow> nat list"
  root_pages :: "nat list"

definition sort_pages :: "page_info list \<Rightarrow> page_info list" where
  "sort_pages all_pages = sort_key (\<lambda>x. (porder x, plevel x)) all_pages"

definition find_parent :: "page_info list \<Rightarrow> (string \<times> nat) list \<Rightarrow> int \<Rightarrow> nat option" where
  "find_parent ps pm level = find (\<lambda>prev. plevel (ps ! prev) = level - 1) (rev (map snd pm))"

definition add_page :: "page_info list \<Rightarrow> tree_state \<Rightarrow> nat \<Rightarrow> tree_state" where
  "add_page ps s i =
     (let page = ps ! i;
          s1 = s\<lparr>kids := (kids s)(i := []), page_map := dict_set (page_map s) (pid page) i\<rparr>;
          level = plevel page
      in if level = 0 then s1\<lparr>root_pages := root_pages s1 @ [i]\<rparr>
         else (case find_parent ps (page_map s1) level of
                 Some parent \<Rightarrow> s1\<lparr>kids := (kids s1)(parent := kids s1 parent @ [i])\<rparr>
               | None \<Rightarrow> s1\<lparr>root_pages := root_pages s1 @ [i]\<rparr>))"

definition empty_tree :: tree_state where
  "empty_tree = \<lparr>page_map = [], kids = (\<lambda>i. []), root_pages = []\<rparr>"

definition build_upto :: "page_info list \<Rightarrow> nat \<Rightarrow> tree_state" where
  "build_upto ps k = foldl (add_page ps) empty_tree [0..<k]"

definition build_state :: "page_info list \<Rightarrow> tree_state" where
  "build_state ps = build_upto ps (length ps)"

text \<open>
  The value returned is the list of root objects; reading it follows the \<open>children\<close>
  lists. A child is read only if it was processed after its parent, which holds for
  every child the loop appends (this is proved below) and makes the reading a
  terminating recursion.
\<close>

function node_of :: "page_info list \<Rightarrow> (nat \<Rightarrow> nat list) \<Rightarrow> nat \<Rightarrow> page" where
  "node_of ps kd i =
     Page (ps ! i) (map (node_of ps kd) (filter (\<lambda>c. i < c \<and> c < length ps) (kd i)))"
  by pat_completeness auto
termination
  by (relation "measure (\<lambda>(ps, kd, i). length ps - i)") auto

definition build_tree :: "page_info list \<Rightarrow> page list" where
  "build_tree all_pages =
     (let ps = sort_pages all_pages; s = build_state ps
      in map (node_of ps (kids s)) (root_pages s))"

definition get_pages :: "env \<Rightarrow> string \<Rightarrow> (string + page list) option" where
  "get_pages env section_id =
     (case fetch_pages (list_pages env section_id) [] 0 0 of
        None \<Rightarrow> None
      | Some (Inl e) \<Rightarrow> Some (Inl e)
      | Some (Inr all_pages) \<Rightarrow>
          Some (Inr (if all_pages = [] then [] else build_tree all_pages)))"

text \<open>
  The tree builder as the specification words it. The records are sorted stably by
  order and then level: \<open>spec_sort\<close> is an insertion sort with the comparison written
  out, which takes the records from the last of the listing to the first and puts each
  in front of the first record that does not come before it, so that records with the
  same order and level keep the order of the listing. Then the parent of a
  page at a level above 0 is the page processed last before it whose level is one less;
  a page at level 0, and a page for which there is no such page, is a root; the
  children of a page are the pages it is the parent of, in the order of processing.
\<close>

fun spec_insert :: "page_info \<Rightarrow> page_info list \<Rightarrow> page_info list" where
  "spec_insert x [] = [x]"
| "spec_insert x (y # ys) =
     (if porder x < porder y \<or> (porder x = porder y \<and> plevel x \<le> plevel y)
      then x # y # ys else y # spec_insert x ys)"

definition spec_sort :: "page_info list \<Rightarrow> page_info list" where
  "spec_sort all_pages = foldr spec_insert all_pages []"

definition spec_parent :: "page_info list \<Rightarrow> nat \<Rightarrow> nat option" where
  "spec_parent ps i =
     (if 0 < plevel (ps ! i)
      then find (\<lambda>j. plevel (ps ! j) = plevel (ps ! i) - 1) (rev [0..<i])
      else None)"

definition spec_roots :: "page_info list \<Rightarrow> nat list" where
  "spec_roots ps = filter (\<lambda>i. spec_parent ps i = None) [0..<length ps]"

definition spec_kids :: "page_info list \<Rightarrow> nat \<Rightarrow> nat list" where
  "spec_kids ps p = filter (\<lambda>i. spec_parent ps i = Some p) [0..<length ps]"

definition spec_tree :: "page_info list \<Rightarrow> page list" where
  "spec_tree all_pages =
     (let ps = spec_sort all_pages
      in map (node_of ps (spec_kids ps)) (spec_roots ps))"

text \<open>The page records of a forest, each page before its children.\<close>

fun flatten :: "page \<Rightarrow> page_info list" where
  "flatten (Page r cs) = r # concat (map flatten cs)"

text \<open>
  Four sample listings: the four pages and the single orphan of the specification, the
  four pages in another order and with a fifth that has the order and level of the
  third, and a listing in which two pages have the same id.
\<close>

definition four_pages :: "page_info list" where
  "four_pages =
     [\<lparr>pid = ''1'', ptitle = ''One'', plevel = 0, porder = 0\<rparr>,
      \<lparr>pid = ''2'', ptitle = ''Two'', plevel = 1, porder = 1\<rparr>,
      \<lparr>pid = ''3'', ptitle = ''Three'', plevel = 1, porder = 2\<rparr>,
      \<lparr>pid = ''4'', ptitle = ''Four'', plevel = 0, porder = 3\<rparr>]"

definition orphan_page :: "page_info list" where
  "orphan_page = [\<lparr>pid = ''1'', ptitle = ''One'', plevel = 2, porder = 0\<rparr>]"

definition shuffled_pages :: "page_info list" where
  "shuffled_pages =
     [\<lparr>pid = ''4'', ptitle = ''Four'', plevel = 0, porder = 3\<rparr>,
      \<lparr>pid = ''3'', ptitle = ''Three'', plevel = 1, porder = 2\<rparr>,
      \<lparr>pid = ''1'', ptitle = ''One'', plevel = 0, porder = 0\<rparr>,
      \<lparr>pid = ''5'', ptitle = ''Five'', plevel = 1, porder = 2\<rparr>,
      \<lparr>pid = ''2'', ptitle = ''Two'', plevel = 1, porder = 1\<rparr>]"

definition repeated_id_pages :: "page_info list" where
  "repeated_id_pages =
     [\<lparr>pid = ''x'', ptitle = ''A'', plevel = 0, porder = 0\<rparr>,
      \<lparr>pid = ''y'', ptitle = ''B'', plevel = 0, porder = 1\<rparr>,
      \<lparr>pid = ''x'', ptitle = ''C'', plevel = 0, porder = 2\<rparr>,
      \<lparr>pid = ''z'', ptitle = ''D'', plevel = 1, porder = 3\<rparr>]"

subsection \<open>Processing one page\<close>

text \<open>
  \<open>process_page\<close> (lines 478 to 527). \<open>page_paths\<close> is its first part (lines 480
  to 504): the directory of the page, the path of its Markdown file and whether it is a
  child page; \<open>page_mkdirs\<close> lists the directories that part and lines 507 and 508
  create. \<open>make_dirs\<close> creates directories until one call raises. \<open>save_markdown\<close>
  is the last part (lines 519 to 527): the directory of the file, \<open>open\<close> and the two
  calls of \<open>write\<close>.
\<close>

definition page_paths :: "page \<Rightarrow> path \<Rightarrow> path option \<Rightarrow> path \<times> path \<times> bool" where
  "page_paths page output_path parent_dir =
     (let sanitized_title = sanitize_filename (ptitle (info page));
          has_children = (children page \<noteq> [])
      in case parent_dir of
           Some dir \<Rightarrow> (dir, dir @ [sanitized_title @ ''.md''], True)
         | None \<Rightarrow>
             if has_children
             then (output_path @ [sanitized_title], output_path @ [sanitized_title @ ''.md''], False)
             else (output_path, output_path @ [sanitized_title @ ''.md''], False))"

definition page_mkdirs :: "page \<Rightarrow> path \<Rightarrow> path option \<Rightarrow> path list" where
  "page_mkdirs page output_path parent_dir =
     (if parent_dir \<noteq> None \<or> children page \<noteq> []
      then [fst (page_paths page output_path parent_dir)] else [])
     @ [output_path @ [''images'']]"

fun make_dirs :: "env \<Rightarrow> path list \<Rightarrow> state \<Rightarrow> string option \<times> state" where
  "make_dirs env [] st = (None, st)"
| "make_dirs env (d # ds) st =
     (case mkdir_error env d of
        Some e \<Rightarrow> (Some e, st)
      | None \<Rightarrow> make_dirs env ds (st\<lparr>dirs := dirs st @ [d]\<rparr>))"

definition save_markdown ::
  "env \<Rightarrow> path \<Rightarrow> string \<Rightarrow> string \<Rightarrow> state \<Rightarrow> (string + unit) \<times> state" where
  "save_markdown env markdown_path page_title markdown_content st =
     (case make_dirs env [butlast markdown_path] st of
        (Some e, st1) \<Rightarrow> (Inl e, st1)
      | (None, st1) \<Rightarrow>
          (case open_error env markdown_path of
             Some e \<Rightarrow> (Inl e, st1)
           | None \<Rightarrow>
               (case write_error env markdown_path of
                  Some e \<Rightarrow>
                    (Inl e, st1\<lparr>partial_files := partial_files st1 @ [markdown_path]\<rparr>)
                | None \<Rightarrow>
                    (Inr (),
                     st1\<lparr>markdown_files := markdown_files st1 @
                       [(markdown_path,
                         ''# '' @ page_title @ [CHR 0x0A, CHR 0x0A] @ markdown_content)]\<rparr>))))"

definition process_page ::
  "env \<Rightarrow> page \<Rightarrow> path \<Rightarrow> path option \<Rightarrow> state \<Rightarrow> (string + unit) \<times> state" where
  "process_page env page output_path parent_dir st =
     (let page_title = ptitle (info page);
          (page_dir, markdown_path, is_child_page) = page_paths page output_path parent_dir;
          images_dir = output_path @ [''images'']
      in case make_dirs env (page_mkdirs page output_path parent_dir) st of
           (Some e, st1) \<Rightarrow> (Inl e, st1)
         | (None, st1) \<Rightarrow>
            (let st2 = st1\<lparr>image_counter := 0\<rparr>
             in case page_content env (pid (info page)) of
                  Inl e \<Rightarrow> (Inl e, st2)
                | Inr html_content \<Rightarrow>
                    (case convert_page_to_markdown env html_content images_dir page_title
                            is_child_page st2 of
                       (Inl e, st3) \<Rightarrow> (Inl e, st3)
                     | (Inr markdown_content, st3) \<Rightarrow>
                         save_markdown env markdown_path page_title markdown_content st3)))"

subsection \<open>Converting a section\<close>

text \<open>
  The inner function \<open>collect_pages\<close> of \<open>download_and_convert\<close> (lines 597 to
  608) appends a task for the page and then for each of its descendants, and
  \<open>collect_all\<close> is the loop that calls it for every root page. \<open>run_tasks\<close> runs
  the tasks one after the other in the order of submission, each with its own \<open>try\<close>
  and \<open>except\<close> (lines 623 to 629): this is what the executor does when no two pages
  are in progress at the same time. The executor itself, with its five workers, follows
  below.
\<close>

fun collect_pages :: "path \<Rightarrow> page \<Rightarrow> path option \<Rightarrow> (page \<times> path option) list" where
  "collect_pages section_output_path (Page r cs) parent_dir =
     (Page r cs, parent_dir) #
     concat (map (\<lambda>child. collect_pages section_output_path child
                    (Some (case parent_dir of
                             None \<Rightarrow> section_output_path @ [sanitize_filename (ptitle r)]
                           | Some dir \<Rightarrow> dir)))
              cs)"

definition collect_all :: "path \<Rightarrow> page list \<Rightarrow> (page \<times> path option) list" where
  "collect_all section_output_path pages =
     concat (map (\<lambda>page. collect_pages section_output_path page None) pages)"

fun run_tasks ::
  "env \<Rightarrow> path \<Rightarrow> (page \<times> path option) list \<Rightarrow> (string \<times> string) list \<Rightarrow> state
     \<Rightarrow> (string \<times> string) list \<times> state" where
  "run_tasks env section_output_path [] failed_pages st = (failed_pages, st)"
| "run_tasks env section_output_path ((page, parent_dir) # tasks) failed_pages st =
     (case process_page env page section_output_path parent_dir st of
        (Inl error_msg, st1) \<Rightarrow>
          run_tasks env section_output_path tasks
            (failed_pages @ [(ptitle (info page), error_msg)]) st1
      | (Inr u, st1) \<Rightarrow> run_tasks env section_output_path tasks failed_pages st1)"

subsection \<open>The worker pool\<close>

text \<open>
  The executor of lines 616 to 619 runs \<open>process_page\<close> for up to five tasks at a
  time, on threads that share the converter object: the steps of different pages
  interleave, on one \<open>self.image_counter\<close> and one file system. A task goes through
  \<open>process_page\<close> in steps, each with at most one access to the counter: a worker
  takes the task from the queue; lines 480 to 508; line 511; lines 514 and 406 to 412;
  then for every image the read of the counter on line 345, the write of the counter on
  line 345, and lines 348 to 382; at the end lines 449 to 476 and 519 to 527.
  \<open>progress\<close> says where a task stands and holds the local variables it needs from
  there on: the tree, the addresses still to download, the local paths found so far,
  and the value that line 345 has read. \<open>task_step\<close> is the next step of a task on
  the shared state. The calls that leave the program within one step (requests,
  directories, files) are taken together: the file system is kept as the lists of what
  was created, and what html2text returns for a page is taken from the environment.
\<close>

datatype progress =
    Queued
  | Taken
  | Entered
  | Counter_reset
  | Images "html list" "string list" "string option list"
  | Loaded "html list" string "string list" "string option list" nat
  | Counted "html list" string "string list" "string option list"
  | Finished "string + unit"

fun task_step ::
  "env \<Rightarrow> path \<Rightarrow> page \<times> path option \<Rightarrow> progress \<Rightarrow> state \<Rightarrow> progress \<times> state" where
  "task_step env output_path (page, parent_dir) Queued st = (Taken, st)"
| "task_step env output_path (page, parent_dir) Taken st =
     (case make_dirs env (page_mkdirs page output_path parent_dir) st of
        (Some e, st1) \<Rightarrow> (Finished (Inl e), st1)
      | (None, st1) \<Rightarrow> (Entered, st1))"
| "task_step env output_path (page, parent_dir) Entered st =
     (Counter_reset, st\<lparr>image_counter := 0\<rparr>)"
| "task_step env output_path (page, parent_dir) Counter_reset st =
     (case page_content env (pid (info page)) of
        Inl e \<Rightarrow> (Finished (Inl e), st)
      | Inr html_content \<Rightarrow>
          (case parse_page env html_content of
             Inl e \<Rightarrow> (Finished (Inl e), st)
           | Inr soup \<Rightarrow> (Images soup (image_urls soup) [], st)))"
| "task_step env output_path (page, parent_dir) (Images soup (img_url # rest) local_paths) st =
     (Loaded soup img_url rest local_paths (image_counter st), st)"
| "task_step env output_path (page, parent_dir) (Loaded soup img_url rest local_paths n) st =
     (Counted soup img_url rest local_paths, st\<lparr>image_counter := n + 1\<rparr>)"
| "task_step env output_path (page, parent_dir) (Counted soup img_url rest local_paths) st =
     (let (local_path, st1) =
            save_image env img_url (output_path @ [''images'']) (ptitle (info page))
              (image_headers env img_url) st
      in (Images soup rest (local_paths @ [local_path]), st1))"
| "task_step env output_path (page, parent_dir) (Images soup [] local_paths) st =
     (let (page_dir, markdown_path, is_child_page) = page_paths page output_path parent_dir
      in case render_page env soup local_paths is_child_page of
           Inl e \<Rightarrow> (Finished (Inl e), st)
         | Inr markdown_content \<Rightarrow>
             (let (r, st1) =
                    save_markdown env markdown_path (ptitle (info page)) markdown_content st
              in (Finished r, st1)))"
| "task_step env output_path (page, parent_dir) (Finished r) st = (Finished r, st)"

text \<open>
  \<open>task_steps n\<close> is \<open>n\<close> steps of one task with no step of another task in
  between.
\<close>

fun task_steps ::
  "env \<Rightarrow> path \<Rightarrow> page \<times> path option \<Rightarrow> nat \<Rightarrow> progress \<times> state \<Rightarrow> progress \<times> state" where
  "task_steps env output_path task 0 c = c"
| "task_steps env output_path task (Suc n) c =
     task_steps env output_path task n (task_step env output_path task (fst c) (snd c))"

text \<open>
  The pool: the shared state and the progress of every task, in the order of
  submission. A worker takes the first task of the queue, and only when fewer than
  \<open>max_workers\<close> tasks are in progress; a task that is in progress may take its next
  step at any time. A schedule is the list of the tasks that take a step, one after the
  other; a task that may not take a step when it is named leaves the pool as it is.
  \<open>pool_failures\<close> is the loop over the futures (lines 623 to 629), which appends the
  title and the message of every task that raised, in the order of submission.
\<close>

definition max_workers :: nat where
  "max_workers = 5"

definition in_progress :: "progress \<Rightarrow> bool" where
  "in_progress p = (case p of Queued \<Rightarrow> False | Finished r \<Rightarrow> False | _ \<Rightarrow> True)"

definition finished :: "progress \<Rightarrow> bool" where
  "finished p = (case p of Finished r \<Rightarrow> True | _ \<Rightarrow> False)"

text \<open>
  \<open>entered\<close> holds of a task that has come past lines 480 to 508 and has not raised
  since.
\<close>

definition entered :: "progress \<Rightarrow> bool" where
  "entered p =
     (case p of Queued \<Rightarrow> False | Taken \<Rightarrow> False | Finished r \<Rightarrow> r = Inr () | _ \<Rightarrow> True)"

definition may_run :: "progress list \<Rightarrow> nat \<Rightarrow> bool" where
  "may_run ps i =
     (case ps ! i of
        Queued \<Rightarrow> Queued \<notin> set (take i ps) \<and> length (filter in_progress ps) < max_workers
      | Finished r \<Rightarrow> False
      | _ \<Rightarrow> True)"

definition pool_step ::
  "env \<Rightarrow> path \<Rightarrow> (page \<times> path option) list \<Rightarrow> state \<times> progress list \<Rightarrow> nat
     \<Rightarrow> state \<times> progress list" where
  "pool_step env output_path tasks cfg i =
     (let (st, ps) = cfg
      in if i < length tasks \<and> i < length ps \<and> may_run ps i
         then (let (p, st1) = task_step env output_path (tasks ! i) (ps ! i) st
               in (st1, ps[i := p]))
         else cfg)"

definition pool_run ::
  "env \<Rightarrow> path \<Rightarrow> (page \<times> path option) list \<Rightarrow> nat list \<Rightarrow> state \<times> progress list
     \<Rightarrow> state \<times> progress list" where
  "pool_run env output_path tasks schedule cfg =
     foldl (pool_step env output_path tasks) cfg schedule"

definition pool_start :: "(page \<times> path option) list \<Rightarrow> state \<Rightarrow> state \<times> progress list" where
  "pool_start tasks st = (st, replicate (length tasks) Queued)"

definition pool_failures ::
  "(page \<times> path option) list \<Rightarrow> progress list \<Rightarrow> (string \<times> string) list" where
  "pool_failures tasks ps =
     concat (map (\<lambda>(task, p). case p of
                                 Finished (Inl error_msg) \<Rightarrow> [(ptitle (info (fst task)), error_msg)]
                               | _ \<Rightarrow> [])
               (zip tasks ps))"

text \<open>The proper descendants of a page, each before its own children.\<close>

fun descendants :: "page \<Rightarrow> page list" where
  "descendants (Page r cs) = concat (map (\<lambda>c. c # descendants c) cs)"

text \<open>A state in which nothing has been done yet.\<close>

definition fresh :: state where
  "fresh =
     \<lparr>image_counter = 0, dirs = [], image_files = [], markdown_files = [], partial_files = []\<rparr>"

text \<open>
  A sample environment: every page parses to a paragraph with one image, every call
  succeeds but the fetch of the content of the page with id \<open>3\<close>, and the digest of
  every address is 0.
\<close>

definition sample_env :: env where
  "sample_env =
     \<lparr>list_pages = (\<lambda>section_id skip. Inr \<lparr>page_values = [], odata_count = None\<rparr>),
      access_token = Some ''token'',
      page_content =
        (\<lambda>page_id. if page_id = ''3'' then Inl ''fetch failed'' else Inr ''<p>text</p>''),
      parse_html =
        (\<lambda>s. Inr [Element ''p'' []
                    [Text ''text'', Element ''img'' [(''src'', ''http://example.com/a.png'')] []]]),
      render_markdown = (\<lambda>soup local_paths is_child_page. Inr ''text''),
      md5_digest = (\<lambda>u. 0),
      url_extension = (\<lambda>u. Inr ''.png''),
      head_content_type = (\<lambda>u. Inr ''image/png''),
      image_response = (\<lambda>u. None),
      transfer_error = (\<lambda>u p. None),
      mkdir_error = (\<lambda>p. None),
      open_error = (\<lambda>p. None),
      write_error = (\<lambda>p. None)\<rparr>"

text \<open>The sample environment with two images of the same address on every page.\<close>

definition two_image_env :: env where
  "two_image_env =
     sample_env\<lparr>parse_html :=
       (\<lambda>s. Inr [Element ''p'' []
                   [Element ''img'' [(''src'', ''http://example.com/a.png'')] [],
                    Element ''img'' [(''src'', ''http://example.com/a.png'')] []]])\<rparr>"

definition sample_page :: "string \<Rightarrow> string \<Rightarrow> page" where
  "sample_page i t = Page \<lparr>pid = i, ptitle = t, plevel = 0, porder = 0\<rparr> []"

text \<open>
  Three sample sections: a page \<open>Plans\<close> with a child \<open>Q1\<close> that has a child
  \<open>January\<close>, next to a childless page \<open>Notes\<close>; two childless pages \<open>Alpha\<close>
  and \<open>Beta\<close>; and five childless pages with the ids 1 to 5.
\<close>

definition nested_pages :: "page list" where
  "nested_pages =
     [Page \<lparr>pid = ''10'', ptitle = ''Plans'', plevel = 0, porder = 0\<rparr>
        [Page \<lparr>pid = ''11'', ptitle = ''Q1'', plevel = 1, porder = 1\<rparr>
           [Page \<lparr>pid = ''12'', ptitle = ''January'', plevel = 2, porder = 2\<rparr> []]],
      Page \<lparr>pid = ''13'', ptitle = ''Notes'', plevel = 0, porder = 3\<rparr> []]"

definition alpha_beta :: "page list" where
  "alpha_beta = [sample_page ''1'' ''Alpha'', sample_page ''2'' ''Beta'']"

definition five_pages :: "page list" where
  "five_pages =
     [sample_page ''1'' ''Page 1'', sample_page ''2'' ''Page 2'', sample_page ''3'' ''Page 3'',
      sample_page ''4'' ''Page 4'', sample_page ''5'' ''Page 5'']"

text \<open>
  The sample environment with a listing endpoint that serves a section of 101 pages and
  sends no count.
\<close>

definition no_count_env :: env where
  "no_count_env =
     sample_env\<lparr>list_pages := (\<lambda>section_id. paging_server section_of_101 False)\<rparr>"

section \<open>Properties\<close>

subsection \<open>Filename sanitizers\<close>

lemma collapse_runs_Nil_iff [simp]: "collapse_runs d s = [] \<longleftrightarrow> s = []"
  by (induction d s rule: collapse_runs.induct) auto

lemma hd_collapse_runs [simp]: "hd (collapse_runs d s) = hd s"
  by (induction d s rule: collapse_runs.induct) auto

lemma last_collapse_runs [simp]: "last (collapse_runs d s) = last s"
  by (induction d s rule: collapse_runs.induct) auto

lemma set_collapse_runs [simp]: "set (collapse_runs d s) = set s"
  by (induction d s rule: collapse_runs.induct) auto

lemma no_adj_Cons: "no_adj d (a # s) \<longleftrightarrow> (s = [] \<or> \<not> (a = d \<and> hd s = d)) \<and> no_adj d s"
  by (cases s) auto

lemma no_adj_collapse_runs: "no_adj d (collapse_runs d s)"
  by (induction d s rule: collapse_runs.induct) (auto simp: no_adj_Cons)

lemma no_adj_collapse_other: "no_adj e s \<Longrightarrow> no_adj e (collapse_runs d s)"
  by (induction d s rule: collapse_runs.induct) (auto simp: no_adj_Cons)

lemma collapse_runs_id: "no_adj d s \<Longrightarrow> collapse_runs d s = s"
  by (induction d s rule: collapse_runs.induct) auto

lemma no_adj_append: "no_adj d (xs @ ys) \<Longrightarrow> no_adj d xs \<and> no_adj d ys"
proof (induction xs)
  case Nil
  then show ?case by simp
next
  case (Cons a xs)
  then show ?case by (cases xs; cases ys) (auto simp: no_adj_Cons)
qed

lemma strip_by_decomp: "\<exists>pre post. s = pre @ strip_by P s @ post"
proof -
  let ?t = "dropWhile P s"
  have "s = takeWhile P s @ ?t" by simp
  moreover have "rev ?t = takeWhile P (rev ?t) @ dropWhile P (rev ?t)" by simp
  then have "?t = strip_by P s @ rev (takeWhile P (rev ?t))"
    unfolding strip_by_def by (metis rev_append rev_rev_ident)
  ultimately have "s = takeWhile P s @ strip_by P s @ rev (takeWhile P (rev ?t))" by simp
  then show ?thesis by blast
qed

lemma no_adj_strip_by: "no_adj d s \<Longrightarrow> no_adj d (strip_by P s)"
  using strip_by_decomp [of s P] no_adj_append by metis

lemma set_strip_by: "set (strip_by P s) \<subseteq> set s"
  using strip_by_decomp [of s P] by (metis Un_upper1 Un_upper2 set_append subset_trans)

lemma strip_by_ends:
  assumes "strip_by P s \<noteq> []"
  shows "\<not> P (hd (strip_by P s)) \<and> \<not> P (last (strip_by P s))"
proof -
  let ?t = "dropWhile P s"
  let ?u = "dropWhile P (rev ?t)"
  from assms have u: "?u \<noteq> []" by (simp add: strip_by_def)
  then have t: "?t \<noteq> []" by (metis dropWhile.simps(1) rev.simps(1))
  have "last (strip_by P s) = hd ?u" by (simp add: strip_by_def u last_rev)
  then have l: "\<not> P (last (strip_by P s))" using hd_dropWhile [OF u] by simp
  have "\<not> P (hd ?t)" using hd_dropWhile [OF t] .
  then have "\<not> P (last (rev ?t))" using t by (simp add: last_rev)
  have "rev ?t = takeWhile P (rev ?t) @ ?u" by simp
  then have "?t = rev ?u @ rev (takeWhile P (rev ?t))" by (metis rev_append rev_rev_ident)
  then have "hd ?t = hd (rev ?u)" using u by (metis hd_append2 rev_is_Nil_conv)
  then have "\<not> P (hd (strip_by P s))" using \<open>\<not> P (hd ?t)\<close> by (simp add: strip_by_def)
  with l show ?thesis by simp
qed

lemma strip_by_id: "s \<noteq> [] \<Longrightarrow> \<not> P (hd s) \<Longrightarrow> \<not> P (last s) \<Longrightarrow> strip_by P s = s"
proof -
  assume a: "s \<noteq> []" "\<not> P (hd s)" "\<not> P (last s)"
  then have "dropWhile P s = s" by (simp add: dropWhile_eq_self_iff)
  moreover have "dropWhile P (rev s) = rev s" using a by (simp add: dropWhile_eq_self_iff hd_rev)
  ultimately show ?thesis by (simp add: strip_by_def)
qed


lemma good_name_untitled: "good_name ''untitled''"
  by (simp add: good_name_def is_control_def)

lemma good_image_name_untitled: "good_image_name ''untitled''"
  by (simp add: good_image_name_def image_safe_def)

lemma replace_char_absent: "a \<notin> set s \<Longrightarrow> replace_char a b s = s"
  by (induction s) (auto simp: replace_char_def)

lemma replace_char_removes: "a \<noteq> b \<Longrightarrow> a \<notin> set (replace_char a b s)"
  by (induction s) (auto simp: replace_char_def)

lemma replace_char_keeps: "a \<notin> set s \<Longrightarrow> a \<noteq> b \<Longrightarrow> a \<notin> set (replace_char c b s)"
  by (induction s) (auto simp: replace_char_def)

lemma sanitize_filename_good: "good_name (sanitize_filename s)"
proof (cases "s = []")
  case True
  then show ?thesis by (simp add: sanitize_filename_def good_name_untitled)
next
  case False
  define f1 where "f1 = replace_char (CHR 0x5C) CHR ''-'' (replace_char CHR ''/'' CHR ''-'' s)"
  define f2 where "f2 = remove_control f1"
  define f3 where "f3 = collapse_runs CHR ''-'' f2"
  define f4 where "f4 = collapse_runs CHR '' '' f3"
  define f5 where "f5 = strip_by (\<lambda>c. c \<in> set '' .-'') f4"
  have res: "sanitize_filename s = (if f5 = [] then ''untitled'' else f5)"
    using False by (simp add: sanitize_filename_def f1_def f2_def f3_def f4_def f5_def)
  show ?thesis
  proof (cases "f5 = []")
    case True
    with res show ?thesis by (simp add: good_name_untitled)
  next
    case nonempty: False
    have "CHR ''/'' \<notin> set f1" "CHR 0x5C \<notin> set f1"
      unfolding f1_def by (simp_all add: replace_char_removes replace_char_keeps)
    then have "CHR ''/'' \<notin> set f2" "CHR 0x5C \<notin> set f2" "\<forall>c\<in>set f2. \<not> is_control c"
      by (simp_all add: f2_def remove_control_def)
    moreover have "set f5 \<subseteq> set f2"
      using set_strip_by [of "\<lambda>c. c \<in> set '' .-''" f4] by (simp add: f5_def f4_def f3_def)
    ultimately have chars: "list_all (\<lambda>c. c \<noteq> CHR ''/'' \<and> c \<noteq> CHR 0x5C \<and> \<not> is_control c) f5"
      unfolding list_all_iff by blast
    have "no_adj CHR ''-'' f3" by (simp add: f3_def no_adj_collapse_runs)
    then have dash: "no_adj CHR ''-'' f5"
      by (simp add: f5_def f4_def no_adj_collapse_other no_adj_strip_by)
    have space: "no_adj CHR '' '' f5"
      by (simp add: f5_def f4_def no_adj_collapse_runs no_adj_strip_by)
    have ends: "hd f5 \<notin> set '' .-'' \<and> last f5 \<notin> set '' .-''"
      using strip_by_ends [of "\<lambda>c. c \<in> set '' .-''" f4] nonempty unfolding f5_def by blast
    from nonempty chars dash space ends have "good_name f5" by (simp add: good_name_def)
    with res nonempty show ?thesis by simp
  qed
qed

lemma sanitize_filename_fixed: "good_name t \<Longrightarrow> sanitize_filename t = t"
proof -
  assume g: "good_name t"
  then have ne: "t \<noteq> []" and sl: "CHR ''/'' \<notin> set t" and bs: "CHR 0x5C \<notin> set t"
    and ctl: "\<forall>c\<in>set t. \<not> is_control c"
    and dash: "no_adj CHR ''-'' t" and space: "no_adj CHR '' '' t"
    and ends: "\<not> hd t \<in> set '' .-''" "\<not> last t \<in> set '' .-''"
    by (auto simp: good_name_def list_all_iff)
  have 1: "replace_char (CHR 0x5C) CHR ''-'' (replace_char CHR ''/'' CHR ''-'' t) = t"
    using sl bs by (simp add: replace_char_absent)
  have 2: "remove_control t = t" using ctl by (simp add: remove_control_def)
  have 3: "collapse_runs CHR ''-'' t = t" using dash by (rule collapse_runs_id)
  have 4: "collapse_runs CHR '' '' t = t" using space by (rule collapse_runs_id)
  have 5: "strip_by (\<lambda>c. c \<in> set '' .-'') t = t" using ne ends by (rule strip_by_id)
  show ?thesis using ne by (simp add: sanitize_filename_def 1 2 3 4 5 del: set_simps)
qed

lemma image_safe_not_control: "image_safe c \<Longrightarrow> \<not> is_control c"
  by (auto simp: image_safe_def is_control_def Let_def)

lemma image_safe_lower: "image_safe c \<Longrightarrow> lower_char c = c"
  by (auto simp: image_safe_def lower_char_def Let_def)

lemma image_safe_not_slash: "image_safe c \<Longrightarrow> c \<noteq> CHR ''/'' \<and> c \<noteq> CHR 0x5C"
  by (auto simp: image_safe_def Let_def)

lemma sanitize_image_filename_good: "good_image_name (sanitize_image_filename s)"
proof (cases "s = []")
  case True
  then show ?thesis by (simp add: sanitize_image_filename_def good_image_name_untitled)
next
  case False
  define f1 where "f1 = replace_char (CHR 0x5C) CHR ''-'' (replace_char CHR ''/'' CHR ''-'' s)"
  define f3 where "f3 = map (\<lambda>c. if image_safe c then c else CHR ''-'') (map lower_char f1)"
  define f4 where "f4 = remove_control f3"
  define f5 where "f5 = collapse_runs CHR ''-'' f4"
  define f6 where "f6 = strip_by (\<lambda>c. c \<in> set ''.-'') f5"
  have res: "sanitize_image_filename s = (if f6 = [] then ''untitled'' else f6)"
    using False by (simp add: sanitize_image_filename_def f1_def f3_def f4_def f5_def f6_def)
  show ?thesis
  proof (cases "f6 = []")
    case True
    with res show ?thesis by (simp add: good_image_name_untitled)
  next
    case nonempty: False
    have "image_safe CHR ''-''" by (simp add: image_safe_def)
    then have "\<forall>c\<in>set f3. image_safe c" by (auto simp: f3_def)
    then have "\<forall>c\<in>set f4. image_safe c" by (simp add: f4_def remove_control_def)
    moreover have "set f6 \<subseteq> set f4"
      using set_strip_by [of "\<lambda>c. c \<in> set ''.-''" f5] by (simp add: f6_def f5_def)
    ultimately have chars: "list_all image_safe f6" unfolding list_all_iff by blast
    have dash: "no_adj CHR ''-'' f6"
      by (simp add: f6_def f5_def no_adj_collapse_runs no_adj_strip_by)
    have ends: "hd f6 \<notin> set ''.-'' \<and> last f6 \<notin> set ''.-''"
      using strip_by_ends [of "\<lambda>c. c \<in> set ''.-''" f5] nonempty unfolding f6_def by blast
    from nonempty chars dash ends have "good_image_name f6" by (simp add: good_image_name_def)
    with res nonempty show ?thesis by simp
  qed
qed

lemma sanitize_image_filename_fixed: "good_image_name t \<Longrightarrow> sanitize_image_filename t = t"
proof -
  assume g: "good_image_name t"
  then have ne: "t \<noteq> []" and safe: "\<forall>c\<in>set t. image_safe c"
    and dash: "no_adj CHR ''-'' t"
    and ends: "\<not> hd t \<in> set ''.-''" "\<not> last t \<in> set ''.-''"
    by (auto simp: good_image_name_def list_all_iff)
  have 1: "replace_char (CHR 0x5C) CHR ''-'' (replace_char CHR ''/'' CHR ''-'' t) = t"
    using safe image_safe_not_slash by (metis replace_char_absent)
  have 2: "map lower_char t = t" using safe by (simp add: image_safe_lower map_idI)
  have 3: "map ((\<lambda>c. if image_safe c then c else CHR ''-'') \<circ> lower_char) t = t"
    using safe by (simp add: image_safe_lower map_idI)
  have 4: "remove_control t = t"
    using safe by (simp add: remove_control_def image_safe_not_control)
  have 5: "collapse_runs CHR ''-'' t = t" using dash by (rule collapse_runs_id)
  have 6: "strip_by (\<lambda>c. c \<in> set ''.-'') t = t" using ne ends by (rule strip_by_id)
  show ?thesis using ne by (simp add: sanitize_image_filename_def 1 2 3 4 5 6 del: set_simps)
qed

text \<open>
  Claim C9. \<open>sanitize_filename\<close> and \<open>sanitize_image_filename\<close> are total and
  idempotent: applying either twice gives what applying it once gives; the result is
  never the empty string; and the result holds no control character (no code point in
  0x00 to 0x1f or 0x7f to 0x9f).
\<close>

theorem sanitizers_total_idempotent:
  "sanitize_filename (sanitize_filename s) = sanitize_filename s \<and>
   sanitize_image_filename (sanitize_image_filename s) = sanitize_image_filename s \<and>
   sanitize_filename s \<noteq> [] \<and> sanitize_image_filename s \<noteq> [] \<and>
   filter is_control (sanitize_filename s) = [] \<and>
   filter is_control (sanitize_image_filename s) = []"
proof -
  have g: "good_name (sanitize_filename s)" by (rule sanitize_filename_good)
  have gi: "good_image_name (sanitize_image_filename s)" by (rule sanitize_image_filename_good)
  have "\<forall>c\<in>set (sanitize_image_filename s). \<not> is_control c"
    using gi image_safe_not_control by (auto simp: good_image_name_def list_all_iff)
  then have "filter is_control (sanitize_image_filename s) = []"
    by (simp add: filter_empty_conv)
  moreover have "filter is_control (sanitize_filename s) = []"
    using g by (auto simp: good_name_def list_all_iff filter_empty_conv)
  ultimately show ?thesis
    using g gi sanitize_filename_fixed [OF g] sanitize_image_filename_fixed [OF gi]
    by (simp add: good_name_def good_image_name_def)
qed

theorem sanitizers_total_idempotent_witness:
  "sanitize_filename (sanitize_filename ''a//b. '') = sanitize_filename ''a//b. '' \<and>
   sanitize_image_filename (sanitize_image_filename ''A b/C'') = sanitize_image_filename ''A b/C'' \<and>
   sanitize_filename ''a//b. '' \<noteq> [] \<and> sanitize_image_filename ''A b/C'' \<noteq> []"
  using sanitizers_total_idempotent [of "''a//b. ''"] sanitizers_total_idempotent [of "''A b/C''"]
  by simp

subsection \<open>Markdown clean-up\<close>

lemma collapse_runs_Cons_other: "a \<noteq> d \<Longrightarrow> collapse_runs d (a # s) = a # collapse_runs d s"
  by (cases s) auto

lemma collapse_runs_Cons_same: "collapse_runs d (d # s) = d # tl (collapse_runs d (d # s))"
proof -
  have "collapse_runs d (d # s) \<noteq> []" by simp
  moreover have "hd (collapse_runs d (d # s)) = d" by simp
  ultimately show ?thesis by (metis list.collapse)
qed

lemma collapse_runs_same_twice: "collapse_runs d (d # d # s) = collapse_runs d (d # s)"
  by simp

lemma collapse_blank_loop_eq:
  "collapse_blank_loop cleaned prev_blank ls =
     cleaned @ (if prev_blank then tl (collapse_runs [] ([] # ls)) else collapse_runs [] ls)"
proof (induction ls arbitrary: cleaned prev_blank)
  case Nil
  then show ?case by simp
next
  case (Cons l ls)
  show ?case
  proof (cases "l = []")
    case True
    have step: "collapse_blank_loop cleaned prev_blank (l # ls) =
        (if prev_blank then cleaned else cleaned @ [[]]) @ tl (collapse_runs [] ([] # ls))"
      using True Cons.IH [of "if \<not> prev_blank then cleaned @ [[]] else cleaned" True] by simp
    show ?thesis
    proof (cases prev_blank)
      case True
      with step \<open>l = []\<close> show ?thesis by (simp del: collapse_runs.simps add: collapse_runs_same_twice)
    next
      case False
      have "collapse_runs [] ([] # ls) = [] # tl (collapse_runs [] ([] # ls))"
        by (rule collapse_runs_Cons_same)
      with step False \<open>l = []\<close> show ?thesis by simp
    qed
  next
    case False
    have "collapse_blank_loop cleaned prev_blank (l # ls) = cleaned @ l # collapse_runs [] ls"
      using False Cons.IH [of "cleaned @ [l]" False] by simp
    moreover have "collapse_runs [] (l # ls) = l # collapse_runs [] ls"
      using False by (rule collapse_runs_Cons_other)
    moreover have "collapse_runs [] ([] # l # ls) = [] # collapse_runs [] (l # ls)"
      using False by simp
    ultimately show ?thesis by simp
  qed
qed

lemma cleanup_lines_eq:
  "cleanup_lines md =
     strip_by (\<lambda>l. l = []) (collapse_runs [] (map (strip_by is_space) (splitlines md)))"
  by (simp add: cleanup_lines_def strip_by_def collapse_blank_loop_eq)

lemma filter_collapse_runs: "filter (\<lambda>x. x \<noteq> d) (collapse_runs d s) = filter (\<lambda>x. x \<noteq> d) s"
  by (induction d s rule: collapse_runs.induct) auto

lemma filter_takeWhile_neg: "filter (\<lambda>x. \<not> P x) (takeWhile P s) = []"
  by (induction s) auto

lemma filter_dropWhile_neg: "filter (\<lambda>x. \<not> P x) (dropWhile P xs) = filter (\<lambda>x. \<not> P x) xs"
  by (induction xs) auto

lemma filter_strip_by: "filter (\<lambda>x. \<not> P x) (strip_by P s) = filter (\<lambda>x. \<not> P x) s"
proof -
  let ?Q = "\<lambda>x. \<not> P x"
  have "filter ?Q (strip_by P s) = rev (filter ?Q (dropWhile P (rev (dropWhile P s))))"
    by (simp add: strip_by_def rev_filter)
  also have "\<dots> = rev (filter ?Q (rev (dropWhile P s)))"
    by (simp only: filter_dropWhile_neg)
  also have "\<dots> = filter ?Q (dropWhile P s)"
    by (simp add: rev_filter)
  also have "\<dots> = filter ?Q s"
    by (rule filter_dropWhile_neg)
  finally show ?thesis .
qed

lemma LF_linebreak: "is_linebreak (CHR 0x0A)" "CHR 0x0A \<noteq> CHR 0x0D"
  by (simp_all add: is_linebreak_def)

lemma CR_linebreak: "is_linebreak (CHR 0x0D)"
  by (simp add: is_linebreak_def)

lemma splitlines_from_plain:
  "\<forall>c\<in>set s. \<not> is_linebreak c \<Longrightarrow>
     splitlines_from cur s = (if cur @ s = [] then [] else [cur @ s])"
  by (induction cur s rule: splitlines_from.induct) (auto simp: CR_linebreak)

lemma splitlines_from_line:
  "\<forall>c\<in>set x. \<not> is_linebreak c \<Longrightarrow>
     splitlines_from cur (x @ CHR 0x0A # rest) = (cur @ x) # splitlines_from [] rest"
proof (induction x arbitrary: cur)
  case Nil
  then show ?case by (cases rest) (simp_all add: LF_linebreak)
next
  case (Cons c x)
  then have c: "\<not> is_linebreak c" and "c \<noteq> CHR 0x0D" using CR_linebreak by auto
  obtain d s where ds: "x @ CHR 0x0A # rest = d # s" by (cases "x @ CHR 0x0A # rest") auto
  from Cons have "splitlines_from (cur @ [c]) (x @ CHR 0x0A # rest) =
      ((cur @ [c]) @ x) # splitlines_from [] rest"
    by simp
  with c \<open>c \<noteq> CHR 0x0D\<close> ds show ?case by simp
qed

lemma splitlines_from_plain_lines:
  "list_all (\<lambda>c. \<not> is_linebreak c) cur \<Longrightarrow>
     list_all (list_all (\<lambda>c. \<not> is_linebreak c)) (splitlines_from cur s)"
  by (induction cur s rule: splitlines_from.induct) simp_all

lemma splitlines_from_no_breaks:
  "\<forall>c\<in>set cur. \<not> is_linebreak c \<Longrightarrow>
     \<forall>l\<in>set (splitlines_from cur s). \<forall>c\<in>set l. \<not> is_linebreak c"
  using splitlines_from_plain_lines [of cur s] by (simp add: list_all_iff)

lemma splitlines_join:
  assumes "\<forall>l\<in>set ls. \<forall>c\<in>set l. \<not> is_linebreak c" and "ls = [] \<or> last ls \<noteq> []"
  shows "splitlines (join_with [CHR 0x0A] ls) = ls"
  using assms
proof (induction "[CHR 0x0A]" ls rule: join_with.induct)
  case 1
  then show ?case by (simp add: splitlines_def)
next
  case (2 x)
  then show ?case by (simp add: splitlines_def splitlines_from_plain)
next
  case (3 x y xs)
  then have "splitlines (join_with [CHR 0x0A] (y # xs)) = y # xs" by simp
  moreover have "splitlines_from [] (x @ CHR 0x0A # join_with [CHR 0x0A] (y # xs)) =
      x # splitlines_from [] (join_with [CHR 0x0A] (y # xs))"
    using 3 splitlines_from_line [of x "[]"] by simp
  ultimately show ?case by (simp add: splitlines_def)
qed

lemma cleanup_lines_no_breaks: "\<forall>l\<in>set (cleanup_lines md). \<forall>c\<in>set l. \<not> is_linebreak c"
proof -
  let ?stripped = "map (strip_by is_space) (splitlines md)"
  have "\<forall>l\<in>set (splitlines md). \<forall>c\<in>set l. \<not> is_linebreak c"
    unfolding splitlines_def by (rule splitlines_from_no_breaks) simp
  then have "\<forall>l\<in>set ?stripped. \<forall>c\<in>set l. \<not> is_linebreak c"
    using set_strip_by [of is_space] by fastforce
  moreover have "set (cleanup_lines md) \<subseteq> set ?stripped"
    unfolding cleanup_lines_eq
    using set_strip_by [of "\<lambda>l. l = []" "collapse_runs [] ?stripped"] by simp
  ultimately show ?thesis by blast
qed

lemma splitlines_cleanup_markdown: "splitlines (cleanup_markdown md) = cleanup_lines md"
proof -
  have "cleanup_lines md = [] \<or> last (cleanup_lines md) \<noteq> []"
    unfolding cleanup_lines_eq
    using strip_by_ends [of "\<lambda>l. l = []"
        "collapse_runs [] (map (strip_by is_space) (splitlines md))"]
    by blast
  with cleanup_lines_no_breaks [of md] show ?thesis
    unfolding cleanup_markdown_def by (rule splitlines_join)
qed

text \<open>
  Claim C5, as amended. For every rendered text the clean-up strips each line at both ends
  (leading whitespace is removed as well as trailing whitespace), collapses every run of
  blank lines to one blank line, and removes the blank lines at the start and the end of
  the document: the cleaned lines are the stripped lines with runs of blank lines
  collapsed and the blank ends dropped; no two neighbouring lines are both blank; the
  first and the last line are not blank; no line starts or ends with whitespace; the
  lines that are not blank are the stripped lines that are not blank, in their order; and
  the returned text is the cleaned lines joined by line feeds, which splits back into
  exactly these lines.
\<close>

theorem cleanup_strips_collapses_trims:
  "cleanup_lines md =
     strip_by (\<lambda>l. l = []) (collapse_runs [] (map (strip_by is_space) (splitlines md))) \<and>
   no_adj [] (cleanup_lines md) \<and>
   (cleanup_lines md = [] \<or> (hd (cleanup_lines md) \<noteq> [] \<and> last (cleanup_lines md) \<noteq> [])) \<and>
   list_all (\<lambda>l. l = [] \<or> (\<not> is_space (hd l) \<and> \<not> is_space (last l))) (cleanup_lines md) \<and>
   filter (\<lambda>l. l \<noteq> []) (cleanup_lines md) =
     filter (\<lambda>l. l \<noteq> []) (map (strip_by is_space) (splitlines md)) \<and>
   cleanup_markdown md = join_with [CHR 0x0A] (cleanup_lines md) \<and>
   splitlines (cleanup_markdown md) = cleanup_lines md"
proof -
  let ?stripped = "map (strip_by is_space) (splitlines md)"
  have eq: "cleanup_lines md = strip_by (\<lambda>l. l = []) (collapse_runs [] ?stripped)"
    by (rule cleanup_lines_eq)
  have adj: "no_adj [] (cleanup_lines md)"
    unfolding eq by (simp add: no_adj_collapse_runs no_adj_strip_by)
  have ends: "cleanup_lines md = [] \<or>
      (hd (cleanup_lines md) \<noteq> [] \<and> last (cleanup_lines md) \<noteq> [])"
    unfolding eq using strip_by_ends [of "\<lambda>l. l = []" "collapse_runs [] ?stripped"] by blast
  have "set (cleanup_lines md) \<subseteq> set ?stripped"
    unfolding eq using set_strip_by [of "\<lambda>l. l = []" "collapse_runs [] ?stripped"] by simp
  moreover have "l = [] \<or> (\<not> is_space (hd l) \<and> \<not> is_space (last l))" if "l \<in> set ?stripped" for l
  proof -
    from that obtain l' where "l = strip_by is_space l'" by auto
    then show ?thesis using strip_by_ends [of is_space l'] by blast
  qed
  ultimately have lines: "list_all (\<lambda>l. l = [] \<or> (\<not> is_space (hd l) \<and> \<not> is_space (last l)))
      (cleanup_lines md)"
    unfolding list_all_iff by blast
  have "filter (\<lambda>l. \<not> l = []) (cleanup_lines md) = filter (\<lambda>l. \<not> l = []) (collapse_runs [] ?stripped)"
    unfolding eq by (rule filter_strip_by)
  then have keep: "filter (\<lambda>l. l \<noteq> []) (cleanup_lines md) = filter (\<lambda>l. l \<noteq> []) ?stripped"
    by (simp add: filter_collapse_runs)
  have roundtrip: "splitlines (cleanup_markdown md) = cleanup_lines md"
    by (rule splitlines_cleanup_markdown)
  have joined: "cleanup_markdown md = join_with [CHR 0x0A] (cleanup_lines md)"
    by (simp add: cleanup_markdown_def)
  from eq adj ends lines keep joined roundtrip show ?thesis by blast
qed

theorem cleanup_strips_collapses_trims_witness:
  "cleanup_lines [CHR ''a'', CHR '' '', CHR 0x0A, CHR 0x0A, CHR 0x0A, CHR '' '', CHR ''b'', CHR 0x0A]
     = [''a'', [], ''b''] \<and>
   cleanup_markdown [CHR ''a'', CHR '' '', CHR 0x0A, CHR 0x0A, CHR 0x0A, CHR '' '', CHR ''b'', CHR 0x0A]
     = [CHR ''a'', CHR 0x0A, CHR 0x0A, CHR ''b'']"
proof -
  let ?md = "[CHR ''a'', CHR '' '', CHR 0x0A, CHR 0x0A, CHR 0x0A, CHR '' '', CHR ''b'', CHR 0x0A]"
  have lines: "map (strip_by is_space) (splitlines ?md) = [''a'', [], [], ''b'']"
    by (simp add: splitlines_def is_linebreak_def strip_by_def is_space_def)
  have "cleanup_lines ?md = [''a'', [], ''b'']"
    using cleanup_strips_collapses_trims [of ?md] unfolding lines by (simp add: strip_by_def)
  moreover have "cleanup_markdown ?md = join_with [CHR 0x0A] (cleanup_lines ?md)"
    using cleanup_strips_collapses_trims [of ?md] by blast
  ultimately show ?thesis by simp
qed

text \<open>
  The claim as it was stated says that leading whitespace is left unchanged. A line with
  two leading blanks loses them.
\<close>

theorem cleanup_removes_leading_whitespace_counterexample:
  "cleanup_markdown ''  - nested item'' = ''- nested item'' \<and>
   cleanup_markdown ''  - nested item'' \<noteq> ''  - nested item''"
  by (simp add: cleanup_markdown_def cleanup_lines_def splitlines_def is_linebreak_def
      strip_by_def is_space_def)

subsection \<open>Bold-span pass\<close>

lemma bold_span_count_convert: "bold_span_count (convert_bold_spans h) = bold_span_count h"
proof (induction h)
  case (Text t)
  then show ?case by simp
next
  case (Element tg attrs cs)
  then have eq: "map (bold_span_count \<circ> convert_bold_spans) cs = map bold_span_count cs"
    by simp
  show ?case by (simp add: eq)
qed

lemma text_of_convert: "text_of (convert_bold_spans h) = text_of h"
proof (induction h)
  case (Text t)
  then show ?case by simp
next
  case (Element tg attrs cs)
  then have eq: "map (text_of \<circ> convert_bold_spans) cs = map text_of cs"
    by simp
  show ?case by (simp add: eq)
qed

lemma bold_wrapped_convert: "bold_wrapped (convert_bold_spans h)"
proof (induction h)
  case (Text t)
  then show ?case by simp
next
  case (Element tg attrs cs)
  then have all: "list_all bold_wrapped (map convert_bold_spans cs)"
    by (simp add: list_all_iff)
  show ?case using all by (auto simp: list_all_iff)
qed

text \<open>
  Claim C6, as amended. For every span element whose \<open>style\<close> attribute contains
  \<open>font-weight:bold\<close> or \<open>font-weight: 700\<close>, spelled in this way, the pass moves
  the children of the span under a new \<open>b\<close> element, which becomes the only child of
  the span; the span itself stays in the tree with its attributes. So after the pass
  every such span has a single child, a \<open>b\<close> element; the number of such spans is
  what it was; and the text of the document is unchanged. The statement is about the
  two spellings the pass looks for; it says nothing about a span that declares a bold
  weight in another spelling.
\<close>

theorem bold_spans_wrap_contents:
  "(is_bold_style style \<longleftrightarrow>
      contains_str style ''font-weight:bold'' \<or> contains_str style ''font-weight: 700'') \<and>
   (is_bold_style (attr_get attrs ''style'' []) \<longrightarrow>
      convert_bold_spans (Element ''span'' attrs cs) =
        Element ''span'' attrs [Element ''b'' [] (map convert_bold_spans cs)]) \<and>
   bold_wrapped (convert_bold_spans h) \<and>
   bold_span_count (convert_bold_spans h) = bold_span_count h \<and>
   text_of (convert_bold_spans h) = text_of h"
  by (simp add: bold_wrapped_convert bold_span_count_convert text_of_convert is_bold_style_def)

theorem bold_spans_wrap_contents_witness:
  "is_bold_style (attr_get [(''style'', ''color:red;font-weight: 700'')] ''style'' []) \<and>
   convert_bold_spans
     (Element ''span'' [(''style'', ''color:red;font-weight: 700'')] [Text ''Hi'', Element ''i'' [] [Text ''!'']]) =
     Element ''span'' [(''style'', ''color:red;font-weight: 700'')]
       [Element ''b'' [] [Text ''Hi'', Element ''i'' [] [Text ''!'']]] \<and>
   text_of (convert_bold_spans
     (Element ''span'' [(''style'', ''color:red;font-weight: 700'')] [Text ''Hi'', Element ''i'' [] [Text ''!'']])) =
     ''Hi!''"
proof -
  have b: "is_bold_style (attr_get [(''style'', ''color:red;font-weight: 700'')] ''style'' [])"
    by (simp add: is_bold_style_def attr_get_def)
  from b bold_spans_wrap_contents
    [where attrs = "[(''style'', ''color:red;font-weight: 700'')]"
       and cs = "[Text ''Hi'', Element ''i'' [] [Text ''!'']]"
       and h = "Element ''span'' [(''style'', ''color:red;font-weight: 700'')]
                  [Text ''Hi'', Element ''i'' [] [Text ''!'']]"]
  show ?thesis by simp
qed

text \<open>
  The claim as it was stated fails in two ways. It says that the new element replaces
  the span, so that the bold-styled span no longer appears: the span around \<open>Hi\<close>
  is still there after the pass, with the \<open>b\<close> element inside it, as the docstring
  of the pass says (it wraps the contents of the span). And it says this of every span
  whose style declares a bold weight, by keyword or by number: the pass looks for the
  two substrings \<open>font-weight:bold\<close> and \<open>font-weight: 700\<close> only, one written
  without a blank and one with a blank, so a span styled \<open>font-weight: bold\<close> or
  \<open>font-weight:700\<close> is left as it was and no \<open>b\<close> element is made for it. The
  first is what the pass is written to do; the second is a case the test misses.
\<close>

theorem bold_span_promotion_counterexample:
  "convert_bold_spans (Element ''span'' [(''style'', ''font-weight:bold'')] [Text ''Hi'']) =
     Element ''span'' [(''style'', ''font-weight:bold'')] [Element ''b'' [] [Text ''Hi'']] \<and>
   bold_span_count
     (convert_bold_spans (Element ''span'' [(''style'', ''font-weight:bold'')] [Text ''Hi''])) = 1 \<and>
   convert_bold_spans (Element ''span'' [(''style'', ''font-weight: bold'')] [Text ''Hi'']) =
     Element ''span'' [(''style'', ''font-weight: bold'')] [Text ''Hi''] \<and>
   convert_bold_spans (Element ''span'' [(''style'', ''font-weight:700'')] [Text ''Hi'']) =
     Element ''span'' [(''style'', ''font-weight:700'')] [Text ''Hi'']"
  by (simp add: is_bold_style_def attr_get_def)

subsection \<open>Image names\<close>

lemma digit_char_inj: "m < 10 \<Longrightarrow> n < 10 \<Longrightarrow> digit_char m = digit_char n \<Longrightarrow> m = n"
  by (simp add: digit_char_def char_of_eq_iff take_bit_eq_mod)

lemma digit_char_not_dot: "n < 10 \<Longrightarrow> digit_char n \<noteq> CHR ''.''"
  by (simp add: digit_char_def char_of_eq_iff take_bit_eq_mod)

lemma dec_not_Nil: "dec n \<noteq> []"
  by (subst dec.simps) simp

lemma dec_no_dot: "CHR ''.'' \<notin> set (dec n)"
proof (induction n rule: dec.induct)
  case (1 n)
  show ?case
  proof (cases "n < 10")
    case True
    then show ?thesis using digit_char_not_dot [of n] by (subst dec.simps) auto
  next
    case False
    with "1.IH" have "CHR ''.'' \<notin> set (dec (n div 10))" by simp
    moreover have "digit_char (n mod 10) \<noteq> CHR ''.''" by (rule digit_char_not_dot) simp
    ultimately show ?thesis using False by (subst dec.simps) auto
  qed
qed

lemma dec_inj: "dec m = dec n \<Longrightarrow> m = n"
proof (induction m arbitrary: n rule: dec.induct)
  case (1 m)
  show ?case
  proof (cases "m < 10")
    case m: True
    show ?thesis
    proof (cases "n < 10")
      case True
      with m "1.prems" show ?thesis
        by (simp add: dec.simps [of m] dec.simps [of n] digit_char_inj)
    next
      case False
      with m "1.prems" have "[digit_char m] = dec (n div 10) @ [digit_char (n mod 10)]"
        by (simp add: dec.simps [of m] dec.simps [of n])
      then show ?thesis using dec_not_Nil [of "n div 10"] by simp
    qed
  next
    case m: False
    show ?thesis
    proof (cases "n < 10")
      case True
      with m "1.prems" have "dec (m div 10) @ [digit_char (m mod 10)] = [digit_char n]"
        by (simp add: dec.simps [of m] dec.simps [of n])
      then show ?thesis using dec_not_Nil [of "m div 10"] by simp
    next
      case False
      with m "1.prems" have "dec (m div 10) = dec (n div 10)"
        and d: "digit_char (m mod 10) = digit_char (n mod 10)"
        by (simp_all add: dec.simps [of m] dec.simps [of n])
      with m "1.IH" have "m div 10 = n div 10" by simp
      moreover from d have "m mod 10 = n mod 10" by (rule digit_char_inj [rotated 2]) simp_all
      ultimately show ?thesis by (metis div_mult_mod_eq)
    qed
  qed
qed

lemma dec_then_dot_inj:
  assumes "dec m @ CHR ''.'' # r = dec n @ CHR ''.'' # r'"
  shows "m = n"
proof -
  have "takeWhile (\<lambda>c. c \<noteq> CHR ''.'') (dec k @ CHR ''.'' # s) = dec k" for k s
  proof -
    have "\<And>x. x \<in> set (dec k) \<Longrightarrow> x \<noteq> CHR ''.''" using dec_no_dot [of k] by blast
    then show ?thesis by (simp add: takeWhile_append2)
  qed
  with assms have "dec m = dec n" by metis
  then show ?thesis by (rule dec_inj)
qed

lemma starts_with_dot: "starts_with s ''.'' \<longleftrightarrow> (\<exists>r. s = CHR ''.'' # r)"
  by (cases s) auto

lemma image_extension_dot:
  assumes "image_extension env u h = Inr ext"
  shows "\<exists>r. ext = CHR ''.'' # r"
  using assms
  by (auto simp: image_extension_def Let_def starts_with_dot split: sum.splits if_splits)

lemma length_url_hash: "length (take 8 (hexdigest w)) = 8"
  by (simp add: hexdigest_def)

lemma local_image_name_counter:
  assumes a: "local_image_name env u t h m = Inr a"
    and b: "local_image_name env u' t h' n = Inr b"
    and ab: "a = b"
  shows "m = n"
proof -
  let ?p = "sanitize_image_filename t @ ''_image_''"
  from a obtain e where e: "image_extension env u h = Inr e"
    and a': "a = ?p @ take 8 (hexdigest (md5_digest env u)) @ ''_'' @ dec m @ e"
    by (auto simp: local_image_name_def Let_def split: sum.splits)
  from b obtain e' where e': "image_extension env u' h' = Inr e'"
    and b': "b = ?p @ take 8 (hexdigest (md5_digest env u')) @ ''_'' @ dec n @ e'"
    by (auto simp: local_image_name_def Let_def split: sum.splits)
  from e obtain r where r: "e = CHR ''.'' # r" using image_extension_dot by blast
  from e' obtain r' where r': "e' = CHR ''.'' # r'" using image_extension_dot by blast
  from ab a' b' have "take 8 (hexdigest (md5_digest env u)) @ (''_'' @ dec m @ e) =
      take 8 (hexdigest (md5_digest env u')) @ (''_'' @ dec n @ e')"
    by simp
  then have "''_'' @ dec m @ e = ''_'' @ dec n @ e'"
    using length_url_hash by (metis append_eq_append_conv)
  then have "dec m @ CHR ''.'' # r = dec n @ CHR ''.'' # r'" using r r' by simp
  then show ?thesis by (rule dec_then_dot_inj)
qed

lemma save_image_counter:
  "image_counter (snd (save_image env u d t h st)) = image_counter st"
  by (simp add: save_image_def Let_def split: sum.splits option.splits)

lemma save_image_result:
  assumes "fst (save_image env u d t h st) = Some p"
  shows "\<exists>name. local_image_name env u t h (image_counter st) = Inr name \<and>
           p = ''images/'' @ name"
  using assms by (auto simp: save_image_def Let_def split: sum.splits option.splits)

lemma download_image_counter:
  "image_counter (snd (download_image env u d t h st)) = Suc (image_counter st)"
  by (simp add: download_image_def save_image_counter)

lemma download_image_result:
  assumes "fst (download_image env u d t h st) = Some p"
  shows "\<exists>name. local_image_name env u t h (Suc (image_counter st)) = Inr name \<and>
           p = ''images/'' @ name"
  using save_image_result [of env u d t h "st\<lparr>image_counter := image_counter st + 1\<rparr>" p] assms
  by (simp add: download_image_def)

lemma download_images_length:
  "length (fst (download_images env d t urls st)) = length urls"
  by (induction urls arbitrary: st) (simp_all add: Let_def case_prod_beta)

lemma download_images_counter:
  "image_counter (snd (download_images env d t urls st)) = image_counter st + length urls"
proof (induction urls arbitrary: st)
  case Nil
  then show ?case by simp
next
  case (Cons u urls)
  obtain r st1 where 1: "download_image env u d t (image_headers env u) st = (r, st1)"
    by (cases "download_image env u d t (image_headers env u) st")
  then have "image_counter st1 = Suc (image_counter st)"
    using download_image_counter [of env u d t "image_headers env u" st] by simp
  with Cons.IH [of st1] 1 show ?case by (simp add: Let_def case_prod_beta)
qed

lemma download_images_nth:
  assumes "i < length urls"
    and "fst (download_images env d t urls st) ! i = Some p"
  shows "\<exists>name. local_image_name env (urls ! i) t (image_headers env (urls ! i))
             (image_counter st + Suc i) = Inr name \<and> p = ''images/'' @ name"
  using assms
proof (induction urls arbitrary: st i)
  case Nil
  then show ?case by simp
next
  case (Cons u urls)
  obtain r st1 where 1: "download_image env u d t (image_headers env u) st = (r, st1)"
    by (cases "download_image env u d t (image_headers env u) st")
  then have c: "image_counter st1 = Suc (image_counter st)"
    using download_image_counter [of env u d t "image_headers env u" st] by simp
  have res: "fst (download_images env d t (u # urls) st) =
      r # fst (download_images env d t urls st1)"
    using 1 by (simp add: Let_def case_prod_beta)
  show ?case
  proof (cases i)
    case 0
    with Cons.prems res have "fst (download_image env u d t (image_headers env u) st) = Some p"
      using 1 by simp
    from download_image_result [OF this] 0 show ?thesis by simp
  next
    case (Suc j)
    with Cons.prems res have "j < length urls"
      and "fst (download_images env d t urls st1) ! j = Some p"
      by simp_all
    from Cons.IH [OF this] c Suc show ?thesis by simp
  qed
qed

lemma make_dirs_shape:
  "\<exists>r created. \<forall>st. make_dirs env ds st = (r, st\<lparr>dirs := dirs st @ created\<rparr>)"
proof (induction ds)
  case Nil
  have "\<forall>st. make_dirs env [] st = (None, st\<lparr>dirs := dirs st @ []\<rparr>)" by simp
  then show ?case by blast
next
  case (Cons d ds)
  then obtain r created
    where IH: "\<forall>st. make_dirs env ds st = (r, st\<lparr>dirs := dirs st @ created\<rparr>)"
    by blast
  show ?case
  proof (cases "mkdir_error env d")
    case (Some e)
    then have "\<forall>st. make_dirs env (d # ds) st = (Some e, st\<lparr>dirs := dirs st @ []\<rparr>)" by simp
    then show ?thesis by blast
  next
    case None
    then have "\<forall>st. make_dirs env (d # ds) st = (r, st\<lparr>dirs := dirs st @ (d # created)\<rparr>)"
      by (simp add: IH)
    then show ?thesis by blast
  qed
qed

lemma save_image_shape:
  "\<exists>r ims pfs. \<forall>st. image_counter st = c \<longrightarrow>
     save_image env u d t h st =
       (r, st\<lparr>image_files := image_files st @ ims, partial_files := partial_files st @ pfs\<rparr>)"
proof -
  have fin: ?thesis
    if "\<forall>st. image_counter st = c \<longrightarrow> save_image env u d t h st =
          (r, st\<lparr>image_files := image_files st @ ims, partial_files := partial_files st @ pfs\<rparr>)"
    for r ims pfs
    using that by blast
  show ?thesis
  proof (cases "local_image_name env u t h c")
    case (Inl e)
    show ?thesis
      by (rule fin [where r = None and ims = "[]" and pfs = "[]"]) (simp add: save_image_def Inl)
  next
    case (Inr name)
    note name = Inr
    show ?thesis
    proof (cases "image_response env u")
      case (Some e)
      show ?thesis
        by (rule fin [where r = None and ims = "[]" and pfs = "[]"]) (simp add: save_image_def name Some)
    next
      case None
      note resp = None
      show ?thesis
      proof (cases "open_error env (d @ [name])")
        case (Some e)
        show ?thesis
          by (rule fin [where r = None and ims = "[]" and pfs = "[]"]) (simp add: save_image_def name resp Some)
      next
        case None
        note opened = None
        show ?thesis
        proof (cases "transfer_error env u (d @ [name])")
          case (Some e)
          show ?thesis
            by (rule fin [where r = None and ims = "[]" and pfs = "[d @ [name]]"])
               (simp add: save_image_def name resp opened Some)
        next
          case None
          show ?thesis
            by (rule fin [where r = "Some (''images/'' @ name)" and ims = "[d @ [name]]" and pfs = "[]"])
               (simp add: save_image_def name resp opened None)
        qed
      qed
    qed
  qed
qed

lemma download_image_shape:
  "\<exists>r ims pfs. \<forall>st. image_counter st = c \<longrightarrow>
     download_image env u d t h st =
       (r, st\<lparr>image_counter := Suc c, image_files := image_files st @ ims,
              partial_files := partial_files st @ pfs\<rparr>)"
proof -
  obtain r ims pfs where 1: "\<forall>st. image_counter st = Suc c \<longrightarrow>
      save_image env u d t h st =
        (r, st\<lparr>image_files := image_files st @ ims, partial_files := partial_files st @ pfs\<rparr>)"
    using save_image_shape by blast
  have "\<forall>st. image_counter st = c \<longrightarrow> download_image env u d t h st =
      (r, st\<lparr>image_counter := Suc c, image_files := image_files st @ ims,
             partial_files := partial_files st @ pfs\<rparr>)"
    by (simp add: download_image_def 1)
  then show ?thesis by blast
qed

lemma download_images_shape:
  "\<exists>rs ims pfs. \<forall>st. image_counter st = c \<longrightarrow>
     download_images env d t urls st =
       (rs, st\<lparr>image_counter := c + length urls, image_files := image_files st @ ims,
               partial_files := partial_files st @ pfs\<rparr>)"
proof (induction urls arbitrary: c)
  case Nil
  have "\<forall>st. image_counter st = c \<longrightarrow> download_images env d t [] st =
      ([], st\<lparr>image_counter := c + length ([] :: string list),
              image_files := image_files st @ [], partial_files := partial_files st @ []\<rparr>)"
    by auto
  then show ?case by blast
next
  case (Cons u urls)
  obtain r ims pfs where 1: "\<forall>st. image_counter st = c \<longrightarrow>
      download_image env u d t (image_headers env u) st =
        (r, st\<lparr>image_counter := Suc c, image_files := image_files st @ ims,
               partial_files := partial_files st @ pfs\<rparr>)"
    using download_image_shape by blast
  obtain rs ims' pfs' where 2: "\<forall>st. image_counter st = Suc c \<longrightarrow>
      download_images env d t urls st =
        (rs, st\<lparr>image_counter := Suc c + length urls, image_files := image_files st @ ims',
                partial_files := partial_files st @ pfs'\<rparr>)"
    using Cons.IH [of "Suc c"] by blast
  have "\<forall>st. image_counter st = c \<longrightarrow> download_images env d t (u # urls) st =
      (r # rs, st\<lparr>image_counter := c + length (u # urls),
                    image_files := image_files st @ (ims @ ims'),
                    partial_files := partial_files st @ (pfs @ pfs')\<rparr>)"
    by (simp add: 1 2)
  then show ?case by blast
qed

lemma convert_page_to_markdown_shape:
  "\<exists>r k ims pfs. \<forall>st. image_counter st = c \<longrightarrow>
     convert_page_to_markdown env html_content d t ch st =
       (r, st\<lparr>image_counter := c + k, image_files := image_files st @ ims,
              partial_files := partial_files st @ pfs\<rparr>)"
proof (cases "parse_page env html_content")
  case (Inl e)
  then have "\<forall>st. image_counter st = c \<longrightarrow> convert_page_to_markdown env html_content d t ch st =
      (Inl e, st\<lparr>image_counter := c + 0, image_files := image_files st @ [],
                  partial_files := partial_files st @ []\<rparr>)"
    by (auto simp: convert_page_to_markdown_def)
  then show ?thesis by blast
next
  case (Inr soup)
  obtain rs ims pfs where 1: "\<forall>st. image_counter st = c \<longrightarrow>
      download_images env d t (image_urls soup) st =
        (rs, st\<lparr>image_counter := c + length (image_urls soup),
               image_files := image_files st @ ims, partial_files := partial_files st @ pfs\<rparr>)"
    using download_images_shape by blast
  have "\<forall>st. image_counter st = c \<longrightarrow> convert_page_to_markdown env html_content d t ch st =
      (render_page env soup rs ch,
       st\<lparr>image_counter := c + length (image_urls soup), image_files := image_files st @ ims,
          partial_files := partial_files st @ pfs\<rparr>)"
    using Inr 1 by (auto simp: convert_page_to_markdown_def)
  then show ?thesis by blast
qed

lemma save_markdown_shape:
  "\<exists>r ds mds pfs.
     (\<forall>st. save_markdown env md t content st =
        (r, st\<lparr>dirs := dirs st @ ds, markdown_files := markdown_files st @ mds,
               partial_files := partial_files st @ pfs\<rparr>)) \<and>
     (case r of Inl e \<Rightarrow> mds = [] | Inr u \<Rightarrow> \<exists>text. mds = [(md, text)])"
proof -
  obtain r2 cr2 where m2: "\<forall>st. make_dirs env [butlast md] st =
      (r2, st\<lparr>dirs := dirs st @ cr2\<rparr>)"
    using make_dirs_shape by blast
  have fin: ?thesis
    if "\<forall>st. save_markdown env md t content st =
          (r, st\<lparr>dirs := dirs st @ ds, markdown_files := markdown_files st @ mds,
                 partial_files := partial_files st @ pfs\<rparr>)"
      and "case r of Inl e \<Rightarrow> mds = [] | Inr u \<Rightarrow> \<exists>text. mds = [(md, text)]"
    for r ds mds pfs
    using that by blast
  show ?thesis
  proof (cases r2)
    case (Some e)
    show ?thesis
      by (rule fin [where r = "Inl e" and ds = cr2 and mds = "[]" and pfs = "[]"])
         (simp_all add: save_markdown_def m2 Some del: make_dirs.simps)
  next
    case None
    note r2 = None
    show ?thesis
    proof (cases "open_error env md")
      case (Some e)
      show ?thesis
        by (rule fin [where r = "Inl e" and ds = cr2 and mds = "[]" and pfs = "[]"])
           (simp_all add: save_markdown_def m2 r2 Some del: make_dirs.simps)
    next
      case None
      note opened = None
      show ?thesis
      proof (cases "write_error env md")
        case (Some e)
        show ?thesis
          by (rule fin [where r = "Inl e" and ds = cr2 and mds = "[]" and pfs = "[md]"])
             (simp_all add: save_markdown_def m2 r2 opened Some del: make_dirs.simps)
      next
        case None
        show ?thesis
          by (rule fin [where r = "Inr ()" and ds = cr2 and pfs = "[]"
                 and mds = "[(md, ''# '' @ t @ [CHR 0x0A, CHR 0x0A] @ content)]"])
             (simp_all add: save_markdown_def m2 r2 opened None del: make_dirs.simps)
      qed
    qed
  qed
qed

lemma process_page_shape:
  "\<exists>r ds ims mds pfs.
     (\<forall>st. fst (process_page env page out pd st) = r \<and>
        dirs (snd (process_page env page out pd st)) = dirs st @ ds \<and>
        image_files (snd (process_page env page out pd st)) = image_files st @ ims \<and>
        markdown_files (snd (process_page env page out pd st)) = markdown_files st @ mds \<and>
        partial_files (snd (process_page env page out pd st)) = partial_files st @ pfs) \<and>
     (case r of
        Inl e \<Rightarrow> mds = []
      | Inr u \<Rightarrow> \<exists>content. mds = [(fst (snd (page_paths page out pd)), content)])"
proof -
  let ?md = "fst (snd (page_paths page out pd))"
  obtain r1 cr1 where m1: "\<forall>st. make_dirs env (page_mkdirs page out pd) st =
      (r1, st\<lparr>dirs := dirs st @ cr1\<rparr>)"
    using make_dirs_shape by blast
  have fin: ?thesis
    if "\<forall>st. fst (process_page env page out pd st) = r \<and>
          dirs (snd (process_page env page out pd st)) = dirs st @ ds \<and>
          image_files (snd (process_page env page out pd st)) = image_files st @ ims \<and>
          markdown_files (snd (process_page env page out pd st)) = markdown_files st @ mds \<and>
          partial_files (snd (process_page env page out pd st)) = partial_files st @ pfs"
      and "case r of Inl e \<Rightarrow> mds = []
           | Inr u \<Rightarrow> \<exists>content. mds = [(?md, content)]"
    for r ds ims mds pfs
    using that by blast
  show ?thesis
  proof (cases r1)
    case (Some e)
    show ?thesis
      by (rule fin [where r = "Inl e" and ds = cr1 and ims = "[]" and mds = "[]" and pfs = "[]"])
         (simp_all add: process_page_def Let_def case_prod_beta m1 Some del: make_dirs.simps)
  next
    case None
    note r1 = None
    show ?thesis
    proof (cases "page_content env (pid (info page))")
      case (Inl e)
      show ?thesis
        by (rule fin [where r = "Inl e" and ds = cr1 and ims = "[]" and mds = "[]" and pfs = "[]"])
           (simp_all add: process_page_def Let_def case_prod_beta m1 r1 Inl del: make_dirs.simps)
    next
      case (Inr html_content)
      note content = Inr
      obtain rc k ims pfs where conv: "\<forall>st. image_counter st = 0 \<longrightarrow>
          convert_page_to_markdown env html_content (out @ [''images'']) (ptitle (info page))
             (snd (snd (page_paths page out pd))) st =
            (rc, st\<lparr>image_counter := 0 + k, image_files := image_files st @ ims,
                    partial_files := partial_files st @ pfs\<rparr>)"
        using convert_page_to_markdown_shape by blast
      show ?thesis
      proof (cases rc)
        case (Inl e)
        show ?thesis
          by (rule fin [where r = "Inl e" and ds = cr1 and ims = ims and mds = "[]" and pfs = pfs])
             (simp_all add: process_page_def Let_def case_prod_beta m1 r1 content conv Inl
                del: make_dirs.simps)
      next
        case (Inr markdown_content)
        note rc = Inr
        obtain r3 ds3 mds3 pfs3 where sm: "\<forall>st. save_markdown env ?md (ptitle (info page))
              markdown_content st =
            (r3, st\<lparr>dirs := dirs st @ ds3, markdown_files := markdown_files st @ mds3,
                    partial_files := partial_files st @ pfs3\<rparr>)"
          and r3: "case r3 of Inl e \<Rightarrow> mds3 = [] | Inr u \<Rightarrow> \<exists>text. mds3 = [(?md, text)]"
          using save_markdown_shape by blast
        show ?thesis
          by (rule fin [where r = r3 and ds = "cr1 @ ds3" and ims = ims and mds = mds3 and pfs = "pfs @ pfs3"])
             (simp_all add: process_page_def Let_def case_prod_beta m1 r1 content conv rc sm r3
                del: make_dirs.simps)
      qed
    qed
  qed
qed

lemma process_page_from_fresh:
  "fst (process_page env page out pd st) = fst (process_page env page out pd fresh) \<and>
   dirs (snd (process_page env page out pd st)) =
     dirs st @ dirs (snd (process_page env page out pd fresh)) \<and>
   image_files (snd (process_page env page out pd st)) =
     image_files st @ image_files (snd (process_page env page out pd fresh)) \<and>
   markdown_files (snd (process_page env page out pd st)) =
     markdown_files st @ markdown_files (snd (process_page env page out pd fresh))"
proof -
  obtain r ds ims mds pfs where "\<forall>st. fst (process_page env page out pd st) = r \<and>
      dirs (snd (process_page env page out pd st)) = dirs st @ ds \<and>
      image_files (snd (process_page env page out pd st)) = image_files st @ ims \<and>
      markdown_files (snd (process_page env page out pd st)) = markdown_files st @ mds \<and>
      partial_files (snd (process_page env page out pd st)) = partial_files st @ pfs"
    using process_page_shape [of env page out pd] by blast
  then show ?thesis by (simp add: fresh_def)
qed

lemma process_page_markdown:
  "case fst (process_page env page out pd fresh) of
     Inl e \<Rightarrow> markdown_files (snd (process_page env page out pd fresh)) = []
   | Inr u \<Rightarrow> \<exists>content. markdown_files (snd (process_page env page out pd fresh)) =
       [(fst (snd (page_paths page out pd)), content)]"
proof -
  obtain r ds ims mds pfs where 1: "\<forall>st. fst (process_page env page out pd st) = r \<and>
      dirs (snd (process_page env page out pd st)) = dirs st @ ds \<and>
      image_files (snd (process_page env page out pd st)) = image_files st @ ims \<and>
      markdown_files (snd (process_page env page out pd st)) = markdown_files st @ mds \<and>
      partial_files (snd (process_page env page out pd st)) = partial_files st @ pfs"
    and 2: "case r of Inl e \<Rightarrow> mds = []
      | Inr u \<Rightarrow> \<exists>content. mds = [(fst (snd (page_paths page out pd)), content)]"
    using process_page_shape [of env page out pd] by blast
  from 1 have "fst (process_page env page out pd fresh) = r"
    and "markdown_files (snd (process_page env page out pd fresh)) = mds"
    by (simp_all add: fresh_def)
  with 2 show ?thesis by (cases r) simp_all
qed

lemma process_page_counter_reset:
  "fst (process_page env page out pd (st\<lparr>image_counter := n\<rparr>)) =
     fst (process_page env page out pd st) \<and>
   image_files (snd (process_page env page out pd (st\<lparr>image_counter := n\<rparr>))) =
     image_files (snd (process_page env page out pd st))"
  using process_page_from_fresh [of env page out pd st]
    process_page_from_fresh [of env page out pd "st\<lparr>image_counter := n\<rparr>"]
  by simp

lemma in_set_map_filter_id: "q \<in> set (List.map_filter (\<lambda>r. r) rs) \<longleftrightarrow> Some q \<in> set rs"
  by (induction rs) (auto simp: List.map_filter_simps split: option.splits)

lemma download_images_distinct:
  "distinct (List.map_filter (\<lambda>r. r) (fst (download_images env d t urls st)))"
proof (induction urls arbitrary: st)
  case Nil
  then show ?case by (simp add: List.map_filter_simps)
next
  case (Cons u urls)
  obtain r st1 where 1: "download_image env u d t (image_headers env u) st = (r, st1)"
    by (cases "download_image env u d t (image_headers env u) st")
  then have c: "image_counter st1 = Suc (image_counter st)"
    using download_image_counter [of env u d t "image_headers env u" st] by simp
  let ?rest = "fst (download_images env d t urls st1)"
  have res: "fst (download_images env d t (u # urls) st) = r # ?rest"
    using 1 by (simp add: Let_def case_prod_beta)
  have IH: "distinct (List.map_filter (\<lambda>r. r) ?rest)" by (rule Cons.IH)
  show ?case
  proof (cases r)
    case None
    with res IH show ?thesis by (simp add: List.map_filter_simps)
  next
    case (Some p)
    with 1 have "fst (download_image env u d t (image_headers env u) st) = Some p" by simp
    from download_image_result [OF this] obtain a
      where a: "local_image_name env u t (image_headers env u) (Suc (image_counter st)) = Inr a"
        and p: "p = ''images/'' @ a"
      by blast
    have "p \<notin> set (List.map_filter (\<lambda>r. r) ?rest)"
    proof
      assume "p \<in> set (List.map_filter (\<lambda>r. r) ?rest)"
      then have "Some p \<in> set ?rest" by (simp add: in_set_map_filter_id)
      then obtain j where j: "j < length ?rest" and pj: "?rest ! j = Some p"
        by (auto simp: in_set_conv_nth)
      from j have "j < length urls" by (simp add: download_images_length)
      from download_images_nth [OF this pj] obtain b
        where b: "local_image_name env (urls ! j) t (image_headers env (urls ! j))
                    (image_counter st1 + Suc j) = Inr b"
          and p': "p = ''images/'' @ b"
        by blast
      from p p' have "a = b" by simp
      from local_image_name_counter [OF a b this] c show False by simp
    qed
    with res IH Some show ?thesis by (simp add: List.map_filter_simps)
  qed
qed

subsection \<open>Running the tasks of a section\<close>

lemma fresh_fields:
  "image_counter fresh = 0" "dirs fresh = []" "image_files fresh = []" "markdown_files fresh = []"
  by (simp_all add: fresh_def)

lemma run_tasks_from_fresh:
  "fst (run_tasks env out tasks failed st) =
     failed @ concat (map (\<lambda>(p, pd). case fst (process_page env p out pd fresh) of
                                        Inl e \<Rightarrow> [(ptitle (info p), e)] | Inr u \<Rightarrow> []) tasks) \<and>
   dirs (snd (run_tasks env out tasks failed st)) =
     dirs st @ concat (map (\<lambda>(p, pd). dirs (snd (process_page env p out pd fresh))) tasks) \<and>
   image_files (snd (run_tasks env out tasks failed st)) =
     image_files st @
     concat (map (\<lambda>(p, pd). image_files (snd (process_page env p out pd fresh))) tasks) \<and>
   markdown_files (snd (run_tasks env out tasks failed st)) =
     markdown_files st @
     concat (map (\<lambda>(p, pd). markdown_files (snd (process_page env p out pd fresh))) tasks)"
proof (induction tasks arbitrary: failed st)
  case Nil
  then show ?case by simp
next
  case (Cons task tasks)
  obtain p pd where task: "task = (p, pd)" by (cases task)
  obtain r st1 where run: "process_page env p out pd st = (r, st1)"
    by (cases "process_page env p out pd st")
  from process_page_from_fresh [of env p out pd st] run
  have r: "r = fst (process_page env p out pd fresh)"
    and d: "dirs st1 = dirs st @ dirs (snd (process_page env p out pd fresh))"
    and i: "image_files st1 = image_files st @ image_files (snd (process_page env p out pd fresh))"
    and m: "markdown_files st1 =
        markdown_files st @ markdown_files (snd (process_page env p out pd fresh))"
    by simp_all
  show ?case
  proof (cases r)
    case (Inl e)
    then have "run_tasks env out (task # tasks) failed st =
        run_tasks env out tasks (failed @ [(ptitle (info p), e)]) st1"
      using task run by simp
    with Cons.IH [of "failed @ [(ptitle (info p), e)]" st1] Inl r d i m task
    show ?thesis by simp
  next
    case (Inr u)
    then have "run_tasks env out (task # tasks) failed st = run_tasks env out tasks failed st1"
      using task run by simp
    with Cons.IH [of failed st1] Inr r d i m task
    show ?thesis by simp
  qed
qed

subsection \<open>One task in the pool\<close>

lemma task_steps_add:
  "task_steps env out task (m + n) c = task_steps env out task n (task_steps env out task m c)"
  by (induction m arbitrary: c) simp_all

lemma task_steps_Finished:
  "task_steps env out task n (Finished r, st) = (Finished r, st)"
  by (induction n) (cases task, simp)+

lemma task_steps_images:
  "download_images env (out @ [''images'']) (ptitle (info page)) urls st = (rs, st2) \<Longrightarrow>
     task_steps env out (page, pd) (3 * length urls) (Images soup urls paths, st) =
       (Images soup [] (paths @ rs), st2)"
proof (induction urls arbitrary: st rs paths)
  case Nil
  then show ?case by simp
next
  case (Cons u urls)
  obtain r st1 where 1: "download_image env u (out @ [''images'']) (ptitle (info page))
      (image_headers env u) st = (r, st1)"
    by (cases "download_image env u (out @ [''images'']) (ptitle (info page))
      (image_headers env u) st")
  obtain rs' where 2: "download_images env (out @ [''images'']) (ptitle (info page)) urls st1 =
      (rs', st2)" and rs: "rs = r # rs'"
    using Cons.prems 1 by (auto simp: Let_def split: prod.splits)
  have "task_steps env out (page, pd) 3 (Images soup (u # urls) paths, st) =
      (Images soup urls (paths @ [r]), st1)"
    using 1 by (simp add: numeral_3_eq_3 download_image_def)
  moreover have "task_steps env out (page, pd) (3 * length urls)
      (Images soup urls (paths @ [r]), st1) = (Images soup [] ((paths @ [r]) @ rs'), st2)"
    by (rule Cons.IH [OF 2])
  moreover have "3 * length (u # urls) = 3 + 3 * length urls" by simp
  ultimately show ?case
    unfolding rs by (simp only: task_steps_add append_assoc append_Cons append_Nil)
qed

text \<open>
  A task that takes its steps with no step of another task in between does what
  \<open>process_page\<close> does.
\<close>

lemma task_steps_process_page:
  "\<exists>n. task_steps env out (page, pd) n (Queued, st) =
     (Finished (fst (process_page env page out pd st)), snd (process_page env page out pd st))"
proof -
  let ?task = "(page, pd)"
  let ?t = "ptitle (info page)"
  let ?md = "fst (snd (page_paths page out pd))"
  let ?ch = "snd (snd (page_paths page out pd))"
  have fin: ?thesis
    if "task_steps env out ?task n (Queued, st) = (Finished r, st')"
      and "process_page env page out pd st = (r, st')" for n r st'
    using that by (intro exI [of _ n]) simp
  obtain r1 st1 where m1: "make_dirs env (page_mkdirs page out pd) st = (r1, st1)"
    by (cases "make_dirs env (page_mkdirs page out pd) st")
  show ?thesis
  proof (cases r1)
    case (Some e)
    show ?thesis
      by (rule fin [of 2 "Inl e" st1])
         (simp_all add: numeral_2_eq_2 process_page_def case_prod_beta m1 Some
            del: make_dirs.simps)
  next
    case None
    note r1 = None
    let ?st2 = "st1\<lparr>image_counter := 0\<rparr>"
    have start: "task_steps env out ?task 3 (Queued, st) = (Counter_reset, ?st2)"
      by (simp add: numeral_3_eq_3 m1 r1 del: make_dirs.simps)
    show ?thesis
    proof (cases "page_content env (pid (info page))")
      case (Inl e)
      have "task_steps env out ?task (3 + 1) (Queued, st) = (Finished (Inl e), ?st2)"
        unfolding task_steps_add start by (simp add: Inl)
      then show ?thesis
        by (rule fin)
           (simp add: process_page_def case_prod_beta m1 r1 Inl del: make_dirs.simps)
    next
      case (Inr html_content)
      note content = Inr
      show ?thesis
      proof (cases "parse_page env html_content")
        case (Inl e)
        have "task_steps env out ?task (3 + 1) (Queued, st) = (Finished (Inl e), ?st2)"
          unfolding task_steps_add start by (simp add: content Inl)
        then show ?thesis
          by (rule fin)
             (simp add: process_page_def case_prod_beta m1 r1 content Inl
                convert_page_to_markdown_def del: make_dirs.simps)
      next
        case (Inr soup)
        note soup = Inr
        obtain rs st3 where dl: "download_images env (out @ [''images'']) ?t
            (image_urls soup) ?st2 = (rs, st3)"
          by (cases "download_images env (out @ [''images'']) ?t (image_urls soup) ?st2")
        have parsed: "task_steps env out ?task (3 + 1) (Queued, st) =
            (Images soup (image_urls soup) [], ?st2)"
          unfolding task_steps_add start by (simp add: content soup)
        have loop: "task_steps env out ?task (3 + 1 + 3 * length (image_urls soup)) (Queued, st) =
            (Images soup [] rs, st3)"
          unfolding task_steps_add [of env out ?task "3 + 1"] parsed
          using task_steps_images [OF dl, where pd = pd and soup = soup and paths = "[]"] by simp
        have conv: "convert_page_to_markdown env html_content (out @ [''images'']) ?t ?ch ?st2 =
            (render_page env soup rs ?ch, st3)"
          by (simp add: convert_page_to_markdown_def soup dl)
        show ?thesis
        proof (cases "render_page env soup rs ?ch")
          case (Inl e)
          have "task_steps env out ?task (3 + 1 + 3 * length (image_urls soup) + 1) (Queued, st) =
              (Finished (Inl e), st3)"
            unfolding task_steps_add [of env out ?task "3 + 1 + 3 * length (image_urls soup)"] loop
            by (simp add: case_prod_beta Inl)
          then show ?thesis
            by (rule fin)
               (simp add: process_page_def case_prod_beta m1 r1 content conv Inl
                  del: make_dirs.simps)
        next
          case (Inr markdown_content)
          obtain r st4 where sm: "save_markdown env ?md ?t markdown_content st3 = (r, st4)"
            by (cases "save_markdown env ?md ?t markdown_content st3")
          have "task_steps env out ?task (3 + 1 + 3 * length (image_urls soup) + 1) (Queued, st) =
              (Finished r, st4)"
            unfolding task_steps_add [of env out ?task "3 + 1 + 3 * length (image_urls soup)"] loop
            by (simp add: case_prod_beta Inr sm)
          then show ?thesis
            by (rule fin)
               (simp add: process_page_def case_prod_beta m1 r1 content conv Inr sm
                  del: make_dirs.simps)
        qed
      qed
    qed
  qed
qed

lemma pool_run_Nil: "pool_run env out tasks [] cfg = cfg"
  by (simp add: pool_run_def)

lemma pool_run_Cons:
  "pool_run env out tasks (i # sched) cfg = pool_run env out tasks sched (pool_step env out tasks cfg i)"
  by (simp add: pool_run_def)

lemma pool_run_append:
  "pool_run env out tasks (a @ b) cfg = pool_run env out tasks b (pool_run env out tasks a cfg)"
  by (simp add: pool_run_def)

lemma pool_step_single:
  "pool_step env out [task] (st, [p]) 0 =
     (snd (task_step env out task p st), [fst (task_step env out task p st)])"
  by (cases task; cases p)
     (simp_all add: pool_step_def may_run_def in_progress_def max_workers_def case_prod_beta)

lemma pool_step_single_other: "i \<noteq> 0 \<Longrightarrow> pool_step env out [task] (st, [p]) i = (st, [p])"
  by (simp add: pool_step_def)

lemma pool_run_single:
  "pool_run env out [task] sched (st, [p]) =
     (snd (task_steps env out task (count_list sched 0) (p, st)),
      [fst (task_steps env out task (count_list sched 0) (p, st))])"
proof (induction sched arbitrary: st p)
  case Nil
  then show ?case by (simp add: pool_run_Nil)
next
  case (Cons i sched)
  show ?case
  proof (cases "i = 0")
    case True
    then show ?thesis
      by (simp add: pool_run_Cons pool_step_single Cons.IH)
  next
    case False
    then show ?thesis
      by (simp add: pool_run_Cons pool_step_single_other Cons.IH)
  qed
qed

text \<open>
  In a section with one page the schedule does not matter: when the task has finished,
  the pool has done what \<open>process_page\<close> does.
\<close>

lemma pool_single_page:
  assumes "pool_run env out [(page, pd)] sched (pool_start [(page, pd)] st) = (st', [Finished r])"
  shows "process_page env page out pd st = (r, st')"
proof -
  let ?k = "count_list sched 0"
  from assms have k: "task_steps env out (page, pd) ?k (Queued, st) = (Finished r, st')"
    by (simp add: pool_start_def pool_run_single prod_eq_iff)
  obtain n where n: "task_steps env out (page, pd) n (Queued, st) =
      (Finished (fst (process_page env page out pd st)), snd (process_page env page out pd st))"
    using task_steps_process_page by blast
  have "task_steps env out (page, pd) (?k + n) (Queued, st) = (Finished r, st')"
    by (simp only: task_steps_add k task_steps_Finished)
  moreover have "task_steps env out (page, pd) (n + ?k) (Queued, st) =
      (Finished (fst (process_page env page out pd st)), snd (process_page env page out pd st))"
    by (simp only: task_steps_add n task_steps_Finished)
  ultimately show ?thesis by (simp add: add.commute prod_eq_iff)
qed

subsection \<open>The pool with one task in progress at a time\<close>

lemma filter_in_progress_done:
  "list_all finished fins \<Longrightarrow> filter in_progress (fins @ Queued # replicate k Queued) = []"
  by (auto simp: filter_empty_conv list_all_iff finished_def in_progress_def
      split: progress.splits)

lemma pool_step_focus:
  assumes fins: "list_all finished fins" and len: "length fins = length before"
  shows "pool_step env out (before @ task # rest) (st, fins @ p # replicate k Queued)
           (length before) =
         (snd (task_step env out task p st),
          fins @ fst (task_step env out task p st) # replicate k Queued)"
proof -
  let ?i = "length before"
  let ?ps = "fins @ p # replicate k Queued"
  have at: "?ps ! ?i = p" and tk: "(before @ task # rest) ! ?i = task"
    using len by (simp_all add: nth_append)
  have upd: "?ps[?i := q] = fins @ q # replicate k Queued" for q
    using len by (simp add: list_update_append)
  have lt: "?i < length (before @ task # rest)" "?i < length ?ps" using len by simp_all
  have nq: "Queued \<notin> set fins"
    using fins by (auto simp: list_all_iff finished_def)
  have mr: "may_run ?ps ?i \<longleftrightarrow>
      (case p of
         Queued \<Rightarrow> Queued \<notin> set (take ?i ?ps) \<and> length (filter in_progress ?ps) < max_workers
       | Finished r \<Rightarrow> False
       | _ \<Rightarrow> True)"
    unfolding may_run_def at by (rule refl)
  show ?thesis
  proof (cases "finished p")
    case True
    then obtain r where r: "p = Finished r" by (cases p) (simp_all add: finished_def)
    have "\<not> may_run ?ps ?i" unfolding mr by (simp add: r)
    then have "pool_step env out (before @ task # rest) (st, ?ps) ?i = (st, ?ps)"
      by (simp add: pool_step_def)
    moreover have "task_step env out task p st = (p, st)" using r by (cases task) simp
    ultimately show ?thesis by simp
  next
    case False
    have "may_run ?ps ?i"
    proof (cases "p = Queued")
      case True
      have "Queued \<notin> set (take ?i ?ps)" using len nq by simp
      moreover have "length (filter in_progress ?ps) < max_workers"
        using filter_in_progress_done [OF fins, of k] True by (simp add: max_workers_def)
      ultimately show ?thesis unfolding mr using True by simp
    next
      case False
      with \<open>\<not> finished p\<close> show ?thesis
        unfolding mr by (cases p) (simp_all add: finished_def)
    qed
    then show ?thesis
      using lt by (simp add: pool_step_def tk at upd case_prod_beta del: length_append)
  qed
qed

lemma pool_run_focus:
  assumes fins: "list_all finished fins" and len: "length fins = length before"
  shows "pool_run env out (before @ task # rest) (replicate n (length before))
           (st, fins @ p # replicate k Queued) =
         (snd (task_steps env out task n (p, st)),
          fins @ fst (task_steps env out task n (p, st)) # replicate k Queued)"
proof (induction n arbitrary: st p)
  case 0
  then show ?case by (simp add: pool_run_Nil)
next
  case (Suc n)
  show ?case
    by (simp add: pool_run_Cons pool_step_focus [OF fins len] Suc.IH)
qed

text \<open>
  \<open>run_tasks\<close> is what the pool does under the schedule that takes every task to its
  end before the next one is taken from the queue.
\<close>

lemma pool_one_at_a_time_from:
  assumes "list_all finished fins" and "length fins = length before"
  shows "\<exists>sched rs.
     pool_run env out (before @ tasks) sched (st, fins @ replicate (length tasks) Queued) =
       (snd (run_tasks env out tasks failed st), fins @ map Finished rs) \<and>
     length rs = length tasks \<and>
     fst (run_tasks env out tasks failed st) =
       failed @ pool_failures tasks (map Finished rs)"
  using assms
proof (induction tasks arbitrary: before fins st failed)
  case Nil
  have "pool_run env out (before @ []) [] (st, fins @ replicate (length ([] :: (page \<times> path option) list)) Queued) =
      (snd (run_tasks env out [] failed st), fins @ map Finished [])"
    by (simp add: pool_run_Nil)
  then show ?case by (intro exI [of _ "[]"]) (simp add: pool_failures_def)
next
  case (Cons task tasks)
  obtain page pd where task: "task = (page, pd)" by (cases task)
  obtain r st1 where run: "process_page env page out pd st = (r, st1)"
    by (cases "process_page env page out pd st")
  obtain n where n: "task_steps env out task n (Queued, st) = (Finished r, st1)"
    using task_steps_process_page [of env out page pd st] run task by auto
  let ?failed1 = "failed @ (case r of Inl e \<Rightarrow> [(ptitle (info page), e)] | Inr u \<Rightarrow> [])"
  have rt: "run_tasks env out (task # tasks) failed st = run_tasks env out tasks ?failed1 st1"
    using task run by (cases r) simp_all
  have first: "pool_run env out (before @ task # tasks) (replicate n (length before))
      (st, fins @ Queued # replicate (length tasks) Queued) =
      (st1, (fins @ [Finished r]) @ replicate (length tasks) Queued)"
    using pool_run_focus [OF Cons.prems, of env out task tasks n st Queued "length tasks"] n
    by simp
  have "finished (Finished r)" by (simp add: finished_def)
  then have "list_all finished (fins @ [Finished r])"
    and "length (fins @ [Finished r]) = length (before @ [task])"
    using Cons.prems by simp_all
  from Cons.IH [OF this, of st1 ?failed1] obtain sched rs
    where rest: "pool_run env out ((before @ [task]) @ tasks) sched
        (st1, (fins @ [Finished r]) @ replicate (length tasks) Queued) =
        (snd (run_tasks env out tasks ?failed1 st1), (fins @ [Finished r]) @ map Finished rs)"
      and len: "length rs = length tasks"
      and res: "fst (run_tasks env out tasks ?failed1 st1) =
        ?failed1 @ pool_failures tasks (map Finished rs)"
    by blast
  have "pool_run env out (before @ task # tasks) (replicate n (length before) @ sched)
      (st, fins @ replicate (length (task # tasks)) Queued) =
      (snd (run_tasks env out (task # tasks) failed st), fins @ map Finished (r # rs))"
    using first rest by (simp add: pool_run_append rt)
  moreover have "length (r # rs) = length (task # tasks)" using len by simp
  moreover have "fst (run_tasks env out (task # tasks) failed st) =
      failed @ pool_failures (task # tasks) (map Finished (r # rs))"
    unfolding rt using res task by (cases r) (simp_all add: pool_failures_def)
  ultimately show ?case by blast
qed

lemma pool_one_at_a_time:
  "\<exists>sched rs.
     pool_run env out tasks sched (pool_start tasks st) =
       (snd (run_tasks env out tasks [] st), map Finished rs) \<and>
     length rs = length tasks \<and>
     fst (run_tasks env out tasks [] st) = pool_failures tasks (map Finished rs)"
  using pool_one_at_a_time_from [of "[]" "[]" env out tasks st "[]"]
  by (simp add: pool_start_def)

subsection \<open>What a step of the pool can write\<close>

lemma make_dirs_effect:
  "make_dirs env ds st = (r, st') \<Longrightarrow>
     \<exists>created. set created \<subseteq> set ds \<and> st' = st\<lparr>dirs := dirs st @ created\<rparr>"
proof (induction ds arbitrary: st)
  case Nil
  then have "st' = st\<lparr>dirs := dirs st @ []\<rparr>" by simp
  then show ?case by (intro exI [of _ "[]"]) simp
next
  case (Cons d ds)
  show ?case
  proof (cases "mkdir_error env d")
    case (Some e)
    with Cons.prems have "st' = st\<lparr>dirs := dirs st @ []\<rparr>" by simp
    then show ?thesis by (intro exI [of _ "[]"]) simp
  next
    case None
    with Cons.prems have "make_dirs env ds (st\<lparr>dirs := dirs st @ [d]\<rparr>) = (r, st')" by simp
    from Cons.IH [OF this] obtain created where c: "set created \<subseteq> set ds"
      and st': "st' = st\<lparr>dirs := dirs st @ [d]\<rparr>\<lparr>dirs := dirs (st\<lparr>dirs := dirs st @ [d]\<rparr>) @ created\<rparr>"
      by blast
    from st' have "st' = st\<lparr>dirs := dirs st @ (d # created)\<rparr>" by simp
    with c show ?thesis by (intro exI [of _ "d # created"]) auto
  qed
qed

lemma save_image_effect:
  assumes a: "save_image env u d t h st = (r, st')"
  shows "\<exists>ims pfs. st' = st\<lparr>image_files := image_files st @ ims,
                         partial_files := partial_files st @ pfs\<rparr> \<and>
       list_all (\<lambda>f. \<exists>name. f = d @ [name]) (ims @ pfs)"
proof -
  have fin: ?thesis
    if "st' = st\<lparr>image_files := image_files st @ ims, partial_files := partial_files st @ pfs\<rparr>"
      and "list_all (\<lambda>f. \<exists>name. f = d @ [name]) (ims @ pfs)" for ims pfs
    using that by blast
  show ?thesis
  proof (cases "local_image_name env u t h (image_counter st)")
    case (Inl e)
    with a show ?thesis
      by (intro fin [where ims = "[]" and pfs = "[]"]) (simp_all add: save_image_def)
  next
    case (Inr name)
    note name = Inr
    show ?thesis
    proof (cases "image_response env u")
      case (Some e)
      with a name show ?thesis
        by (intro fin [where ims = "[]" and pfs = "[]"]) (simp_all add: save_image_def)
    next
      case None
      note resp = None
      show ?thesis
      proof (cases "open_error env (d @ [name])")
        case (Some e)
        with a name resp show ?thesis
          by (intro fin [where ims = "[]" and pfs = "[]"]) (simp_all add: save_image_def)
      next
        case None
        note opened = None
        show ?thesis
        proof (cases "transfer_error env u (d @ [name])")
          case (Some e)
          with a [symmetric] name resp opened show ?thesis
            by (intro fin [where ims = "[]" and pfs = "[d @ [name]]"])
               (simp_all add: save_image_def)
        next
          case None
          with a [symmetric] name resp opened show ?thesis
            by (intro fin [where ims = "[d @ [name]]" and pfs = "[]"])
               (simp_all add: save_image_def)
        qed
      qed
    qed
  qed
qed

lemma save_markdown_effect:
  assumes a: "save_markdown env md t content st = (r, st')"
  shows "\<exists>ds mds pfs.
       st' = st\<lparr>dirs := dirs st @ ds, markdown_files := markdown_files st @ mds,
                 partial_files := partial_files st @ pfs\<rparr> \<and>
       set ds \<subseteq> {butlast md} \<and> set pfs \<subseteq> {md} \<and>
       (case r of Inl e \<Rightarrow> mds = [] | Inr u \<Rightarrow> \<exists>text. mds = [(md, text)])"
proof -
  obtain r2 st2 where m: "make_dirs env [butlast md] st = (r2, st2)"
    by (cases "make_dirs env [butlast md] st")
  from make_dirs_effect [OF m] obtain ds where ds: "set ds \<subseteq> {butlast md}"
    and st2: "st2 = st\<lparr>dirs := dirs st @ ds\<rparr>"
    by auto
  have fin: ?thesis
    if "st' = st\<lparr>dirs := dirs st @ ds, markdown_files := markdown_files st @ mds,
                  partial_files := partial_files st @ pfs\<rparr>"
      and "set pfs \<subseteq> {md}"
      and "case r of Inl e \<Rightarrow> mds = [] | Inr u \<Rightarrow> \<exists>text. mds = [(md, text)]" for mds pfs
    using that ds by blast
  show ?thesis
  proof (cases r2)
    case (Some e)
    with a m st2 show ?thesis
      by (intro fin [where mds = "[]" and pfs = "[]"])
         (auto simp: save_markdown_def simp del: make_dirs.simps)
  next
    case None
    note r2 = None
    show ?thesis
    proof (cases "open_error env md")
      case (Some e)
      with a m st2 r2 show ?thesis
        by (intro fin [where mds = "[]" and pfs = "[]"])
           (auto simp: save_markdown_def simp del: make_dirs.simps)
    next
      case None
      note opened = None
      show ?thesis
      proof (cases "write_error env md")
        case (Some e)
        with a m st2 r2 opened show ?thesis
          by (intro fin [where mds = "[]" and pfs = "[md]"])
             (auto simp: save_markdown_def simp del: make_dirs.simps)
      next
        case None
        with a m st2 r2 opened show ?thesis
          by (intro fin [where pfs = "[]"
                and mds = "[(md, ''# '' @ t @ [CHR 0x0A, CHR 0x0A] @ content)]"])
             (auto simp: save_markdown_def simp del: make_dirs.simps)
      qed
    qed
  qed
qed

lemma task_step_effect:
  assumes a: "task_step env out (page, pd) p st = (p', st')"
  shows "\<exists>c ds ims mds pfs.
     st' = st\<lparr>image_counter := c, dirs := dirs st @ ds, image_files := image_files st @ ims,
               markdown_files := markdown_files st @ mds,
               partial_files := partial_files st @ pfs\<rparr> \<and>
     set ds \<subseteq> insert (butlast (fst (snd (page_paths page out pd))))
                 (set (page_mkdirs page out pd)) \<and>
     list_all (\<lambda>f. \<exists>name. f = out @ [''images'', name]) ims \<and>
     list_all (\<lambda>f. f = fst (snd (page_paths page out pd)) \<or>
                    (\<exists>name. f = out @ [''images'', name])) pfs \<and>
     list_all (\<lambda>e. fst e = fst (snd (page_paths page out pd))) mds \<and>
     (p' = Finished (Inr ()) \<longrightarrow> p = Finished (Inr ()) \<or> mds \<noteq> [])"
proof -
  let ?md = "fst (snd (page_paths page out pd))"
  have fin: ?thesis
    if "st' = st\<lparr>image_counter := c, dirs := dirs st @ ds, image_files := image_files st @ ims,
                  markdown_files := markdown_files st @ mds,
                  partial_files := partial_files st @ pfs\<rparr>"
      and "set ds \<subseteq> insert (butlast ?md) (set (page_mkdirs page out pd))"
      and "list_all (\<lambda>f. \<exists>name. f = out @ [''images'', name]) ims"
      and "list_all (\<lambda>f. f = ?md \<or> (\<exists>name. f = out @ [''images'', name])) pfs"
      and "list_all (\<lambda>e. fst e = ?md) mds"
      and "p' = Finished (Inr ()) \<longrightarrow> p = Finished (Inr ()) \<or> mds \<noteq> []"
    for c ds ims mds pfs
    using that by blast
  have same: ?thesis if "st' = st" and "p' = Finished (Inr ()) \<longrightarrow> p = Finished (Inr ())"
    using that
    by (intro fin [where c = "image_counter st" and ds = "[]" and ims = "[]" and mds = "[]"
          and pfs = "[]"]) simp_all
  show ?thesis
  proof (cases p)
    case Queued
    with a show ?thesis by (intro same) auto
  next
    case Taken
    obtain r1 st1 where m: "make_dirs env (page_mkdirs page out pd) st = (r1, st1)"
      by (cases "make_dirs env (page_mkdirs page out pd) st")
    from make_dirs_effect [OF m] obtain ds where ds: "set ds \<subseteq> set (page_mkdirs page out pd)"
      and st1: "st1 = st\<lparr>dirs := dirs st @ ds\<rparr>"
      by blast
    from a Taken m have "st' = st1" and "p' \<noteq> Finished (Inr ())"
      by (auto simp del: make_dirs.simps split: option.splits)
    with st1 ds show ?thesis
      by (intro fin [where c = "image_counter st" and ds = ds and ims = "[]" and mds = "[]"
            and pfs = "[]"]) auto
  next
    case Entered
    with a show ?thesis
      by (intro fin [where c = 0 and ds = "[]" and ims = "[]" and mds = "[]" and pfs = "[]"])
         auto
  next
    case Counter_reset
    with a show ?thesis by (intro same) (auto split: sum.splits)
  next
    case (Images soup urls paths)
    show ?thesis
    proof (cases urls)
      case (Cons u rest)
      with a Images show ?thesis by (intro same) auto
    next
      case Nil
      show ?thesis
      proof (cases "render_page env soup paths (snd (snd (page_paths page out pd)))")
        case (Inl e)
        with a Images Nil show ?thesis by (intro same) (auto simp: case_prod_beta)
      next
        case (Inr markdown_content)
        obtain r st4 where sm: "save_markdown env ?md (ptitle (info page)) markdown_content st =
            (r, st4)"
          by (cases "save_markdown env ?md (ptitle (info page)) markdown_content st")
        from save_markdown_effect [OF sm] obtain ds mds pfs
          where st4: "st4 = st\<lparr>dirs := dirs st @ ds, markdown_files := markdown_files st @ mds,
                  partial_files := partial_files st @ pfs\<rparr>"
            and ds: "set ds \<subseteq> {butlast ?md}" and pfs: "set pfs \<subseteq> {?md}"
            and mds: "case r of Inl e \<Rightarrow> mds = [] | Inr u \<Rightarrow> \<exists>text. mds = [(?md, text)]"
          by blast
        from a Images Nil Inr sm have p': "p' = Finished r" and st': "st' = st4"
          by (auto simp: case_prod_beta)
        have "list_all (\<lambda>e. fst e = ?md) mds" using mds by (cases r) auto
        moreover have "p' = Finished (Inr ()) \<longrightarrow> mds \<noteq> []" using mds p' by (cases r) auto
        moreover have "list_all (\<lambda>f. f = ?md \<or> (\<exists>name. f = out @ [''images'', name])) pfs"
          using pfs by (auto simp: list_all_iff)
        ultimately show ?thesis
          using st' st4 ds
          by (intro fin [where c = "image_counter st" and ds = ds and ims = "[]" and mds = mds
                and pfs = pfs]) auto
      qed
    qed
  next
    case (Loaded soup u rest paths n)
    with a show ?thesis
      by (intro fin [where c = "n + 1" and ds = "[]" and ims = "[]" and mds = "[]"
            and pfs = "[]"]) auto
  next
    case (Counted soup u rest paths)
    obtain r st1 where s: "save_image env u (out @ [''images'']) (ptitle (info page))
        (image_headers env u) st = (r, st1)"
      by (cases "save_image env u (out @ [''images'']) (ptitle (info page))
        (image_headers env u) st")
    from save_image_effect [OF s] obtain ims pfs
      where st1: "st1 = st\<lparr>image_files := image_files st @ ims,
                partial_files := partial_files st @ pfs\<rparr>"
        and paths: "list_all (\<lambda>f. \<exists>name. f = (out @ [''images'']) @ [name]) (ims @ pfs)"
      by blast
    from a Counted s have "st' = st1" and "p' \<noteq> Finished (Inr ())" by auto
    with st1 paths show ?thesis
      by (intro fin [where c = "image_counter st" and ds = "[]" and ims = ims and mds = "[]"
            and pfs = pfs]) (auto simp: list_all_iff)
  next
    case (Finished r)
    with a show ?thesis by (intro same) auto
  qed
qed

lemma pool_run_snoc:
  "pool_run env out tasks (sched @ [i]) cfg =
     pool_step env out tasks (pool_run env out tasks sched cfg) i"
  by (simp add: pool_run_def)

lemma pool_run_effect:
  assumes len: "length ps0 = length tasks"
    and run: "pool_run env out tasks sched (st0, ps0) = (st, ps)"
  shows "length ps = length tasks \<and>
    (\<exists>ds ims mds pfs.
       dirs st = dirs st0 @ ds \<and> image_files st = image_files st0 @ ims \<and>
       markdown_files st = markdown_files st0 @ mds \<and>
       partial_files st = partial_files st0 @ pfs \<and>
       list_all (\<lambda>d. \<exists>task\<in>set tasks.
                   d = butlast (fst (snd (page_paths (fst task) out (snd task)))) \<or>
                   d \<in> set (page_mkdirs (fst task) out (snd task))) ds \<and>
       list_all (\<lambda>f. \<exists>name. f = out @ [''images'', name]) ims \<and>
       list_all (\<lambda>e. \<exists>task\<in>set tasks.
                   fst e = fst (snd (page_paths (fst task) out (snd task)))) mds \<and>
       list_all (\<lambda>f. (\<exists>name. f = out @ [''images'', name]) \<or>
                   (\<exists>task\<in>set tasks.
                      f = fst (snd (page_paths (fst task) out (snd task))))) pfs \<and>
       (\<forall>i<length tasks. ps ! i = Finished (Inr ()) \<longrightarrow>
          ps0 ! i = Finished (Inr ()) \<or>
          (\<exists>e\<in>set mds. fst e = fst (snd (page_paths (fst (tasks ! i)) out (snd (tasks ! i)))))))"
  using run
proof (induction sched arbitrary: st ps rule: rev_induct)
  case Nil
  then have "st = st0" "ps = ps0" by (simp_all add: pool_run_Nil)
  then show ?case using len by (intro conjI exI [of _ "[]"]) simp_all
next
  case (snoc i sched)
  let ?md = "\<lambda>task. fst (snd (page_paths (fst task) out (snd task)))"
  obtain st1 ps1 where mid: "pool_run env out tasks sched (st0, ps0) = (st1, ps1)"
    by (cases "pool_run env out tasks sched (st0, ps0)")
  from snoc.IH [OF mid] obtain ds ims mds pfs
    where l1: "length ps1 = length tasks"
      and d1: "dirs st1 = dirs st0 @ ds" and i1: "image_files st1 = image_files st0 @ ims"
      and m1: "markdown_files st1 = markdown_files st0 @ mds"
      and p1: "partial_files st1 = partial_files st0 @ pfs"
      and dsP: "list_all (\<lambda>d. \<exists>task\<in>set tasks. d = butlast (?md task) \<or>
                   d \<in> set (page_mkdirs (fst task) out (snd task))) ds"
      and imsP: "list_all (\<lambda>f. \<exists>name. f = out @ [''images'', name]) ims"
      and mdsP: "list_all (\<lambda>e. \<exists>task\<in>set tasks. fst e = ?md task) mds"
      and pfsP: "list_all (\<lambda>f. (\<exists>name. f = out @ [''images'', name]) \<or>
                   (\<exists>task\<in>set tasks. f = ?md task)) pfs"
      and finP: "\<forall>j<length tasks. ps1 ! j = Finished (Inr ()) \<longrightarrow>
          ps0 ! j = Finished (Inr ()) \<or> (\<exists>e\<in>set mds. fst e = ?md (tasks ! j))"
    by blast
  from snoc.prems mid have step: "pool_step env out tasks (st1, ps1) i = (st, ps)"
    by (simp add: pool_run_snoc)
  have fin: ?case
    if "length ps = length tasks"
      and "dirs st = dirs st0 @ ds'" and "image_files st = image_files st0 @ ims'"
      and "markdown_files st = markdown_files st0 @ mds'"
      and "partial_files st = partial_files st0 @ pfs'"
      and "list_all (\<lambda>d. \<exists>task\<in>set tasks. d = butlast (?md task) \<or>
                   d \<in> set (page_mkdirs (fst task) out (snd task))) ds'"
      and "list_all (\<lambda>f. \<exists>name. f = out @ [''images'', name]) ims'"
      and "list_all (\<lambda>e. \<exists>task\<in>set tasks. fst e = ?md task) mds'"
      and "list_all (\<lambda>f. (\<exists>name. f = out @ [''images'', name]) \<or>
                   (\<exists>task\<in>set tasks. f = ?md task)) pfs'"
      and "\<forall>j<length tasks. ps ! j = Finished (Inr ()) \<longrightarrow>
          ps0 ! j = Finished (Inr ()) \<or> (\<exists>e\<in>set mds'. fst e = ?md (tasks ! j))"
    for ds' ims' mds' pfs'
    using that by blast
  show ?case
  proof (cases "i < length tasks \<and> i < length ps1 \<and> may_run ps1 i")
    case False
    with step have "st = st1" "ps = ps1" by (auto simp: pool_step_def)
    with l1 d1 i1 m1 p1 dsP imsP mdsP pfsP finP show ?thesis
      by (intro fin [where ds' = ds and ims' = ims and mds' = mds and pfs' = pfs]) simp_all
  next
    case True
    then have i: "i < length tasks" by simp
    obtain page pd where task: "tasks ! i = (page, pd)" by (cases "tasks ! i")
    then have mem: "(page, pd) \<in> set tasks" using i by (metis nth_mem)
    obtain p st2 where ts: "task_step env out (page, pd) (ps1 ! i) st1 = (p, st2)"
      by (cases "task_step env out (page, pd) (ps1 ! i) st1")
    with step True task have st: "st = st2" and ps: "ps = ps1[i := p]"
      by (auto simp: pool_step_def)
    from task_step_effect [OF ts] obtain c ds2 ims2 mds2 pfs2
      where st2: "st2 = st1\<lparr>image_counter := c, dirs := dirs st1 @ ds2,
                image_files := image_files st1 @ ims2,
                markdown_files := markdown_files st1 @ mds2,
                partial_files := partial_files st1 @ pfs2\<rparr>"
        and ds2: "set ds2 \<subseteq> insert (butlast (?md (page, pd))) (set (page_mkdirs page out pd))"
        and ims2: "list_all (\<lambda>f. \<exists>name. f = out @ [''images'', name]) ims2"
        and pfs2: "list_all (\<lambda>f. f = ?md (page, pd) \<or>
                      (\<exists>name. f = out @ [''images'', name])) pfs2"
        and mds2: "list_all (\<lambda>e. fst e = ?md (page, pd)) mds2"
        and fin2: "p = Finished (Inr ()) \<longrightarrow> ps1 ! i = Finished (Inr ()) \<or> mds2 \<noteq> []"
      by auto
    have A: "list_all (\<lambda>d. \<exists>task\<in>set tasks. d = butlast (?md task) \<or>
                   d \<in> set (page_mkdirs (fst task) out (snd task))) ds2"
      unfolding list_all_iff
    proof
      fix d assume "d \<in> set ds2"
      with ds2 have "d = butlast (?md (page, pd)) \<or> d \<in> set (page_mkdirs page out pd)" by auto
      then show "\<exists>task\<in>set tasks. d = butlast (?md task) \<or>
          d \<in> set (page_mkdirs (fst task) out (snd task))"
        using mem by (intro bexI [of _ "(page, pd)"]) simp_all
    qed
    have B: "list_all (\<lambda>e. \<exists>task\<in>set tasks. fst e = ?md task) mds2"
      unfolding list_all_iff
    proof
      fix e assume "e \<in> set mds2"
      with mds2 have "fst e = ?md (page, pd)" by (simp add: list_all_iff)
      then show "\<exists>task\<in>set tasks. fst e = ?md task" using mem by (intro bexI [of _ "(page, pd)"])
    qed
    have C: "list_all (\<lambda>f. (\<exists>name. f = out @ [''images'', name]) \<or>
                   (\<exists>task\<in>set tasks. f = ?md task)) pfs2"
      unfolding list_all_iff
    proof
      fix f assume "f \<in> set pfs2"
      with pfs2 have "f = ?md (page, pd) \<or> (\<exists>name. f = out @ [''images'', name])"
        by (simp add: list_all_iff)
      then show "(\<exists>name. f = out @ [''images'', name]) \<or> (\<exists>task\<in>set tasks. f = ?md task)"
        using mem by blast
    qed
    have D: "\<forall>j<length tasks. ps ! j = Finished (Inr ()) \<longrightarrow>
        ps0 ! j = Finished (Inr ()) \<or> (\<exists>e\<in>set (mds @ mds2). fst e = ?md (tasks ! j))"
    proof (intro allI impI)
      fix j assume j: "j < length tasks" and f: "ps ! j = Finished (Inr ())"
      show "ps0 ! j = Finished (Inr ()) \<or> (\<exists>e\<in>set (mds @ mds2). fst e = ?md (tasks ! j))"
      proof (cases "j = i")
        case False
        with f ps have "ps1 ! j = Finished (Inr ())" by simp
        with finP j show ?thesis by auto
      next
        case True
        with f ps l1 i have "p = Finished (Inr ())" by simp
        with fin2 consider "ps1 ! i = Finished (Inr ())" | "mds2 \<noteq> []" by blast
        then show ?thesis
        proof cases
          case 1
          with finP i True show ?thesis by auto
        next
          case 2
          then obtain e where e: "e \<in> set mds2" by (cases mds2) auto
          with mds2 have "fst e = ?md (page, pd)" by (simp add: list_all_iff)
          with e True task show ?thesis by auto
        qed
      qed
    qed
    show ?thesis
      using l1 d1 i1 m1 p1 dsP imsP mdsP pfsP A B C D
      by (intro fin [where ds' = "ds @ ds2" and ims' = "ims @ ims2" and mds' = "mds @ mds2"
            and pfs' = "pfs @ pfs2"])
         (simp_all add: st st2 ps ims2)
  qed
qed

lemma make_dirs_None:
  "make_dirs env ds st = (None, st') \<Longrightarrow> st' = st\<lparr>dirs := dirs st @ ds\<rparr>"
proof (induction ds arbitrary: st)
  case Nil
  then show ?case by simp
next
  case (Cons d ds)
  show ?case
  proof (cases "mkdir_error env d")
    case (Some e)
    with Cons.prems show ?thesis by simp
  next
    case None
    with Cons.prems have "make_dirs env ds (st\<lparr>dirs := dirs st @ [d]\<rparr>) = (None, st')" by simp
    from Cons.IH [OF this] show ?thesis by simp
  qed
qed

lemma task_step_entered:
  assumes a: "task_step env out (page, pd) p st = (p', st')"
    and before: "entered p \<longrightarrow> set (page_mkdirs page out pd) \<subseteq> set (dirs st)"
  shows "entered p' \<longrightarrow> set (page_mkdirs page out pd) \<subseteq> set (dirs st')"
proof (cases "p = Taken")
  case True
  obtain r1 st1 where m: "make_dirs env (page_mkdirs page out pd) st = (r1, st1)"
    by (cases "make_dirs env (page_mkdirs page out pd) st")
  show ?thesis
  proof (cases r1)
    case (Some e)
    with a True m have "p' = Finished (Inl e)" by (simp del: make_dirs.simps)
    then show ?thesis by (simp add: entered_def)
  next
    case None
    with a True m have "st' = st1" by (simp del: make_dirs.simps)
    with make_dirs_None [OF m [unfolded None]] show ?thesis by simp
  qed
next
  case False
  from task_step_effect [OF a] obtain ds where "dirs st' = dirs st @ ds" by auto
  then have mono: "set (dirs st) \<subseteq> set (dirs st')" by simp
  have "entered p' \<longrightarrow> entered p"
  proof (cases p)
    case Queued
    with a show ?thesis by (auto simp: entered_def)
  next
    case Taken
    with False show ?thesis by simp
  next
    case (Finished r)
    with a show ?thesis by auto
  qed (simp_all add: entered_def)
  with before mono show ?thesis by blast
qed

lemma pool_run_entered:
  assumes len: "length ps0 = length tasks"
    and start: "\<forall>i<length tasks. \<not> entered (ps0 ! i)"
    and run: "pool_run env out tasks sched (st0, ps0) = (st, ps)"
  shows "\<forall>i<length tasks. entered (ps ! i) \<longrightarrow>
           set (page_mkdirs (fst (tasks ! i)) out (snd (tasks ! i))) \<subseteq> set (dirs st)"
  using run
proof (induction sched arbitrary: st ps rule: rev_induct)
  case Nil
  with start show ?case by (simp add: pool_run_Nil)
next
  case (snoc i sched)
  obtain st1 ps1 where mid: "pool_run env out tasks sched (st0, ps0) = (st1, ps1)"
    by (cases "pool_run env out tasks sched (st0, ps0)")
  note IH = snoc.IH [OF mid]
  from pool_run_effect [OF len mid] have l1: "length ps1 = length tasks" by blast
  from snoc.prems mid have step: "pool_step env out tasks (st1, ps1) i = (st, ps)"
    by (simp add: pool_run_snoc)
  show ?case
  proof (cases "i < length tasks \<and> i < length ps1 \<and> may_run ps1 i")
    case False
    with step have "st = st1" "ps = ps1" by (auto simp: pool_step_def)
    with IH show ?thesis by simp
  next
    case True
    then have i: "i < length tasks" by simp
    obtain page pd where task: "tasks ! i = (page, pd)" by (cases "tasks ! i")
    obtain p st2 where ts: "task_step env out (page, pd) (ps1 ! i) st1 = (p, st2)"
      by (cases "task_step env out (page, pd) (ps1 ! i) st1")
    with step True task have st: "st = st2" and ps: "ps = ps1[i := p]"
      by (auto simp: pool_step_def)
    from task_step_effect [OF ts] obtain ds where "dirs st2 = dirs st1 @ ds" by auto
    then have mono: "set (dirs st1) \<subseteq> set (dirs st)" using st by simp
    from IH i have "entered (ps1 ! i) \<longrightarrow>
        set (page_mkdirs (fst (tasks ! i)) out (snd (tasks ! i))) \<subseteq> set (dirs st1)"
      by blast
    then have "entered (ps1 ! i) \<longrightarrow> set (page_mkdirs page out pd) \<subseteq> set (dirs st1)"
      unfolding task by simp
    from task_step_entered [OF ts this]
    have own: "entered p \<longrightarrow> set (page_mkdirs page out pd) \<subseteq> set (dirs st)"
      using st by simp
    show ?thesis
    proof (intro allI impI)
      fix j assume j: "j < length tasks" and e: "entered (ps ! j)"
      show "set (page_mkdirs (fst (tasks ! j)) out (snd (tasks ! j))) \<subseteq> set (dirs st)"
      proof (cases "j = i")
        case True
        with e ps l1 i own task show ?thesis by simp
      next
        case False
        with e ps have "entered (ps1 ! j)" by simp
        with IH j mono show ?thesis by blast
      qed
    qed
  qed
qed

subsection \<open>The image counter\<close>

lemma save_image_files:
  "image_files (snd (save_image env u d t h st)) =
     image_files st @
     image_files (snd (save_image env u d t h (fresh\<lparr>image_counter := image_counter st\<rparr>)))"
proof -
  obtain r ims pfs where 1: "\<forall>st'. image_counter st' = image_counter st \<longrightarrow>
      save_image env u d t h st' =
        (r, st'\<lparr>image_files := image_files st' @ ims, partial_files := partial_files st' @ pfs\<rparr>)"
    using save_image_shape by blast
  from 1 have "save_image env u d t h st =
      (r, st\<lparr>image_files := image_files st @ ims, partial_files := partial_files st @ pfs\<rparr>)"
    by simp
  moreover from 1 have "image_files (snd (save_image env u d t h
      (fresh\<lparr>image_counter := image_counter st\<rparr>))) = ims"
    by (simp add: fresh_def)
  ultimately show ?thesis by simp
qed

lemma saved_file:
  "image_files (snd (save_image env u d t h (fresh\<lparr>image_counter := c\<rparr>))) =
     (case local_image_name env u t h c of
        Inl e \<Rightarrow> []
      | Inr name \<Rightarrow>
          if image_response env u = None \<and> open_error env (d @ [name]) = None \<and>
             transfer_error env u (d @ [name]) = None
          then [d @ [name]] else [])"
  by (auto simp: save_image_def fresh_def Let_def split: sum.splits option.splits)

lemma download_images_files:
  "image_files (snd (download_images env d t urls st)) =
     image_files st @
     concat (map (\<lambda>i. image_files (snd (save_image env (urls ! i) d t
                          (image_headers env (urls ! i))
                          (fresh\<lparr>image_counter := image_counter st + i + 1\<rparr>))))
               [0..<length urls])"
proof (induction urls arbitrary: st)
  case Nil
  then show ?case by simp
next
  case (Cons u urls)
  obtain r st1 where 1: "download_image env u d t (image_headers env u) st = (r, st1)"
    by (cases "download_image env u d t (image_headers env u) st")
  then have c: "image_counter st1 = Suc (image_counter st)"
    using download_image_counter [of env u d t "image_headers env u" st] by simp
  have f: "image_files st1 = image_files st @
      image_files (snd (save_image env u d t (image_headers env u)
        (fresh\<lparr>image_counter := image_counter st + 0 + 1\<rparr>)))"
    using 1 save_image_files [of env u d t "image_headers env u"
        "st\<lparr>image_counter := image_counter st + 1\<rparr>"]
    by (simp add: download_image_def)
  have "snd (download_images env d t (u # urls) st) = snd (download_images env d t urls st1)"
    using 1 by (simp add: case_prod_beta)
  then have "image_files (snd (download_images env d t (u # urls) st)) =
      image_files st1 @
      concat (map (\<lambda>i. image_files (snd (save_image env (urls ! i) d t
                          (image_headers env (urls ! i))
                          (fresh\<lparr>image_counter := image_counter st1 + i + 1\<rparr>))))
               [0..<length urls])"
    using Cons.IH [of st1] by simp
  also have "\<dots> = image_files st @
      concat (map (\<lambda>i. image_files (snd (save_image env ((u # urls) ! i) d t
                          (image_headers env ((u # urls) ! i))
                          (fresh\<lparr>image_counter := image_counter st + i + 1\<rparr>))))
               [0..<length (u # urls)])"
    unfolding f c
    by (simp add: upt_conv_Cons [of 0] map_Suc_upt [symmetric] comp_def del: upt_Suc)
  finally show ?case .
qed

lemma process_page_images:
  assumes m: "make_dirs env (page_mkdirs page out pd) st = (None, st1)"
    and content: "page_content env (pid (info page)) = Inr html_content"
    and soup: "parse_page env html_content = Inr soup"
  shows "image_counter (snd (process_page env page out pd st)) = length (image_urls soup) \<and>
    image_files (snd (process_page env page out pd st)) =
      image_files st @
      concat (map (\<lambda>i. image_files (snd (save_image env (image_urls soup ! i)
                          (out @ [''images'']) (ptitle (info page))
                          (image_headers env (image_urls soup ! i))
                          (fresh\<lparr>image_counter := i + 1\<rparr>))))
               [0..<length (image_urls soup)])"
proof -
  let ?d = "out @ [''images'']"
  let ?t = "ptitle (info page)"
  let ?md = "fst (snd (page_paths page out pd))"
  let ?st2 = "st1\<lparr>image_counter := 0\<rparr>"
  from make_dirs_effect [OF m] have st1: "image_files st1 = image_files st" by auto
  obtain rs st3 where dl: "download_images env ?d ?t (image_urls soup) ?st2 = (rs, st3)"
    by (cases "download_images env ?d ?t (image_urls soup) ?st2")
  have c3: "image_counter st3 = length (image_urls soup)"
    using download_images_counter [of env ?d ?t "image_urls soup" ?st2] dl by simp
  have f3: "image_files st3 = image_files st @
      concat (map (\<lambda>i. image_files (snd (save_image env (image_urls soup ! i) ?d ?t
                          (image_headers env (image_urls soup ! i))
                          (fresh\<lparr>image_counter := i + 1\<rparr>))))
               [0..<length (image_urls soup)])"
    using download_images_files [of env ?d ?t "image_urls soup" ?st2] dl st1 by simp
  have same: "image_counter (snd (process_page env page out pd st)) = image_counter st3 \<and>
      image_files (snd (process_page env page out pd st)) = image_files st3"
  proof (cases "render_page env soup rs (snd (snd (page_paths page out pd)))")
    case (Inl e)
    then have "snd (process_page env page out pd st) = st3"
      by (simp add: process_page_def case_prod_beta m content soup dl
          convert_page_to_markdown_def del: make_dirs.simps)
    then show ?thesis by simp
  next
    case (Inr markdown_content)
    obtain r st4 where sm: "save_markdown env ?md ?t markdown_content st3 = (r, st4)"
      by (cases "save_markdown env ?md ?t markdown_content st3")
    from Inr sm have "snd (process_page env page out pd st) = st4"
      by (simp add: process_page_def case_prod_beta m content soup dl
          convert_page_to_markdown_def del: make_dirs.simps)
    moreover from save_markdown_effect [OF sm]
    have "image_counter st4 = image_counter st3 \<and> image_files st4 = image_files st3" by auto
    ultimately show ?thesis by simp
  qed
  with c3 f3 show ?thesis by simp
qed

text \<open>
  Claim C7, as amended. \<open>download_image\<close> builds each local name as the sanitized page
  title, \<open>_image_\<close>, the first eight hexadecimal digits of the digest of the address,
  \<open>_\<close>, the value the counter has when the name is built, and the extension.
  \<open>process_page\<close> sets the counter to 0 before the images of the page are downloaded,
  and \<open>download_image\<close> adds one to the counter before it builds the name. Hence,
  when a page is processed with no step of another page in between (as in a section of
  one page, whatever the schedule of the pool), the first call of \<open>download_image\<close>
  for the page builds its name with the counter value 1, the second with 2, and so on,
  whether an earlier call has failed or not: the call number \<open>i\<close> of the page,
  counting from 0, saves its file under the name built for \<open>i + 1\<close>, every image file
  the page saves is one of these, and after the page the counter is the number of its
  images.
\<close>

theorem image_names_count_from_one:
  assumes "make_dirs env (page_mkdirs page out pd) st = (None, st1)"
    and "page_content env (pid (info page)) = Inr html_content"
    and "parse_page env html_content = Inr soup"
  shows "(local_image_name env u t h c = Inr name \<longleftrightarrow>
       (\<exists>ext. image_extension env u h = Inr ext \<and>
          name = sanitize_image_filename t @ ''_image_'' @
                   take 8 (hexdigest (md5_digest env u)) @ ''_'' @ dec c @ ext)) \<and>
     image_counter (snd (process_page env page out pd st)) = length (image_urls soup) \<and>
     (\<forall>i<length (image_urls soup). \<forall>fname.
        local_image_name env (image_urls soup ! i) (ptitle (info page))
          (image_headers env (image_urls soup ! i)) (i + 1) = Inr fname \<and>
        image_response env (image_urls soup ! i) = None \<and>
        open_error env (out @ [''images'', fname]) = None \<and>
        transfer_error env (image_urls soup ! i) (out @ [''images'', fname]) = None \<longrightarrow>
        out @ [''images'', fname] \<in> set (image_files (snd (process_page env page out pd st)))) \<and>
     (\<forall>f\<in>set (image_files (snd (process_page env page out pd st))).
        f \<in> set (image_files st) \<or>
        (\<exists>i<length (image_urls soup). \<exists>fname.
           local_image_name env (image_urls soup ! i) (ptitle (info page))
             (image_headers env (image_urls soup ! i)) (i + 1) = Inr fname \<and>
           f = out @ [''images'', fname])) \<and>
     (pool_run env out [(page, pd)] sched (pool_start [(page, pd)] st) = (st', [Finished r]) \<longrightarrow>
        process_page env page out pd st = (r, st'))"
proof -
  let ?urls = "image_urls soup"
  let ?saved = "\<lambda>i. image_files (snd (save_image env (?urls ! i) (out @ [''images''])
      (ptitle (info page)) (image_headers env (?urls ! i)) (fresh\<lparr>image_counter := i + 1\<rparr>)))"
  let ?st' = "snd (process_page env page out pd st)"
  from process_page_images [OF assms]
  have counter: "image_counter ?st' = length ?urls"
    and files: "image_files ?st' = image_files st @ concat (map ?saved [0..<length ?urls])"
    by simp_all
  have name: "local_image_name env u t h c = Inr name \<longleftrightarrow>
      (\<exists>ext. image_extension env u h = Inr ext \<and>
         name = sanitize_image_filename t @ ''_image_'' @
                  take 8 (hexdigest (md5_digest env u)) @ ''_'' @ dec c @ ext)"
    by (auto simp: local_image_name_def Let_def split: sum.splits)
  have saved: "\<forall>i<length ?urls. \<forall>fname.
      local_image_name env (?urls ! i) (ptitle (info page))
        (image_headers env (?urls ! i)) (i + 1) = Inr fname \<and>
      image_response env (?urls ! i) = None \<and>
      open_error env (out @ [''images'', fname]) = None \<and>
      transfer_error env (?urls ! i) (out @ [''images'', fname]) = None \<longrightarrow>
      out @ [''images'', fname] \<in> set (image_files ?st')"
  proof (intro allI impI)
    fix i fname
    assume i: "i < length ?urls"
      and ok: "local_image_name env (?urls ! i) (ptitle (info page))
          (image_headers env (?urls ! i)) (i + 1) = Inr fname \<and>
        image_response env (?urls ! i) = None \<and>
        open_error env (out @ [''images'', fname]) = None \<and>
        transfer_error env (?urls ! i) (out @ [''images'', fname]) = None"
    then have "?saved i = [out @ [''images'', fname]]" by (simp add: saved_file)
    with i have "out @ [''images'', fname] \<in> set (concat (map ?saved [0..<length ?urls]))"
      by (auto intro!: bexI [of _ i])
    then show "out @ [''images'', fname] \<in> set (image_files ?st')" unfolding files by simp
  qed
  have only: "\<forall>f\<in>set (image_files ?st'). f \<in> set (image_files st) \<or>
      (\<exists>i<length ?urls. \<exists>fname.
         local_image_name env (?urls ! i) (ptitle (info page))
           (image_headers env (?urls ! i)) (i + 1) = Inr fname \<and>
         f = out @ [''images'', fname])"
  proof
    fix f assume "f \<in> set (image_files ?st')"
    then consider "f \<in> set (image_files st)" | i where "i < length ?urls" and "f \<in> set (?saved i)"
      unfolding files by auto
    then show "f \<in> set (image_files st) \<or>
      (\<exists>i<length ?urls. \<exists>fname.
         local_image_name env (?urls ! i) (ptitle (info page))
           (image_headers env (?urls ! i)) (i + 1) = Inr fname \<and>
         f = out @ [''images'', fname])"
    proof cases
      case 1
      then show ?thesis by simp
    next
      case 2
      from 2(2) have "\<exists>fname. local_image_name env (?urls ! i) (ptitle (info page))
           (image_headers env (?urls ! i)) (i + 1) = Inr fname \<and> f = out @ [''images'', fname]"
        unfolding saved_file
        by (cases "local_image_name env (?urls ! i) (ptitle (info page))
              (image_headers env (?urls ! i)) (i + 1)") (auto split: if_splits)
      with 2(1) show ?thesis by blast
    qed
  qed
  have alone: "pool_run env out [(page, pd)] sched (pool_start [(page, pd)] st) =
      (st', [Finished r]) \<longrightarrow> process_page env page out pd st = (r, st')"
    using pool_single_page by blast
  from name counter saved only alone show ?thesis by blast
qed

lemma notes_page_run:
  "make_dirs sample_env (page_mkdirs (sample_page ''1'' ''Notes'') [''output'', ''section''] None)
     fresh =
     (None, fresh\<lparr>dirs := [[''output'', ''section'', ''images'']]\<rparr>) \<and>
   page_content sample_env (pid (info (sample_page ''1'' ''Notes''))) = Inr ''<p>text</p>'' \<and>
   parse_page sample_env ''<p>text</p>'' =
     Inr [Element ''p'' []
            [Text ''text'', Element ''img'' [(''src'', ''http://example.com/a.png'')] []]] \<and>
   image_urls [Element ''p'' []
            [Text ''text'', Element ''img'' [(''src'', ''http://example.com/a.png'')] []]] =
     [''http://example.com/a.png''] \<and>
   local_image_name sample_env ''http://example.com/a.png''
     (ptitle (info (sample_page ''1'' ''Notes'')))
     (image_headers sample_env ''http://example.com/a.png'') 1 =
     Inr ''notes_image_00000000_1.png'' \<and>
   image_response sample_env ''http://example.com/a.png'' = None \<and>
   open_error sample_env [''output'', ''section'', ''images'', ''notes_image_00000000_1.png''] =
     None \<and>
   transfer_error sample_env ''http://example.com/a.png''
     [''output'', ''section'', ''images'', ''notes_image_00000000_1.png''] = None"
  by code_simp

theorem image_names_count_from_one_witness:
  "image_counter (snd (process_page sample_env (sample_page ''1'' ''Notes'')
      [''output'', ''section''] None fresh)) = 1 \<and>
   [''output'', ''section'', ''images'', ''notes_image_00000000_1.png''] \<in>
     set (image_files (snd (process_page sample_env (sample_page ''1'' ''Notes'')
       [''output'', ''section''] None fresh)))"
proof -
  let ?soup = "[Element ''p'' []
      [Text ''text'', Element ''img'' [(''src'', ''http://example.com/a.png'')] []]]"
  note run = notes_page_run
  from run have m: "make_dirs sample_env
      (page_mkdirs (sample_page ''1'' ''Notes'') [''output'', ''section''] None) fresh =
      (None, fresh\<lparr>dirs := [[''output'', ''section'', ''images'']]\<rparr>)"
    and content: "page_content sample_env (pid (info (sample_page ''1'' ''Notes''))) =
      Inr ''<p>text</p>''"
    and soup: "parse_page sample_env ''<p>text</p>'' = Inr ?soup"
    and urls: "image_urls ?soup = [''http://example.com/a.png'']"
    by blast+
  note facts = image_names_count_from_one [OF m content soup]
  from facts have "image_counter (snd (process_page sample_env (sample_page ''1'' ''Notes'')
      [''output'', ''section''] None fresh)) = length (image_urls ?soup)"
    by blast
  moreover from facts have "\<forall>i<length (image_urls ?soup). \<forall>fname.
      local_image_name sample_env (image_urls ?soup ! i) (ptitle (info (sample_page ''1'' ''Notes'')))
        (image_headers sample_env (image_urls ?soup ! i)) (i + 1) = Inr fname \<and>
      image_response sample_env (image_urls ?soup ! i) = None \<and>
      open_error sample_env ([''output'', ''section''] @ [''images'', fname]) = None \<and>
      transfer_error sample_env (image_urls ?soup ! i)
        ([''output'', ''section''] @ [''images'', fname]) = None \<longrightarrow>
      [''output'', ''section''] @ [''images'', fname] \<in>
        set (image_files (snd (process_page sample_env (sample_page ''1'' ''Notes'')
          [''output'', ''section''] None fresh)))"
    by blast
  then have "local_image_name sample_env ''http://example.com/a.png''
        (ptitle (info (sample_page ''1'' ''Notes'')))
        (image_headers sample_env ''http://example.com/a.png'') 1 =
          Inr ''notes_image_00000000_1.png'' \<and>
      image_response sample_env ''http://example.com/a.png'' = None \<and>
      open_error sample_env [''output'', ''section'', ''images'', ''notes_image_00000000_1.png''] =
        None \<and>
      transfer_error sample_env ''http://example.com/a.png''
        [''output'', ''section'', ''images'', ''notes_image_00000000_1.png''] = None \<longrightarrow>
      [''output'', ''section'', ''images'', ''notes_image_00000000_1.png''] \<in>
        set (image_files (snd (process_page sample_env (sample_page ''1'' ''Notes'')
          [''output'', ''section''] None fresh)))"
    unfolding urls by (simp del: One_nat_def)
  ultimately show ?thesis using run unfolding urls by simp
qed

text \<open>
  The claim as it was stated says that the counter is incremented only after the name is
  built, so that the first image of a page carries 0: the one image of a sample page is
  saved under a name that carries 1. The claim also says this of every page, and the
  counter is one field that all workers of the pool share: when the pages \<open>Alpha\<close> and
  \<open>Beta\<close>, with two images each, are in progress at the same time, they count on the
  same counter, and under the schedule below the images of \<open>Beta\<close> carry 1 and 3.
\<close>

theorem first_image_carries_one_counterexample:
  "image_files (snd (process_page sample_env (sample_page ''1'' ''Notes'')
      [''output'', ''section''] None fresh)) =
     [[''output'', ''section'', ''images'', ''notes_image_00000000_1.png'']] \<and>
   image_files (fst (pool_run two_image_env [''output'', ''section'']
      (collect_all [''output'', ''section''] alpha_beta)
      [0, 0, 0, 0, 0, 0, 0, 1, 1, 1, 1, 1, 1, 1, 0, 0, 0, 1, 1, 1, 0, 1]
      (pool_start (collect_all [''output'', ''section''] alpha_beta) fresh))) =
     [[''output'', ''section'', ''images'', ''alpha_image_00000000_1.png''],
      [''output'', ''section'', ''images'', ''beta_image_00000000_1.png''],
      [''output'', ''section'', ''images'', ''alpha_image_00000000_2.png''],
      [''output'', ''section'', ''images'', ''beta_image_00000000_3.png'']] \<and>
   snd (pool_run two_image_env [''output'', ''section'']
      (collect_all [''output'', ''section''] alpha_beta)
      [0, 0, 0, 0, 0, 0, 0, 1, 1, 1, 1, 1, 1, 1, 0, 0, 0, 1, 1, 1, 0, 1]
      (pool_start (collect_all [''output'', ''section''] alpha_beta) fresh)) =
     [Finished (Inr ()), Finished (Inr ())]"
  by code_simp

text \<open>
  When the calls of \<open>download_image\<close> for a page follow each other with no step of
  another page in between, the local file names they return are pairwise distinct,
  whatever the addresses and their digests are: two names built for the same page title
  with different counter values differ, and the counter grows with every call.
\<close>

lemma sequential_image_names_distinct:
  "distinct (List.map_filter (\<lambda>r. r) (fst (download_images env d t urls st))) \<and>
   (local_image_name env u t h m = Inr a \<and> local_image_name env u' t h' n = Inr b \<and> m \<noteq> n
      \<longrightarrow> a \<noteq> b) \<and>
   image_counter (snd (download_images env d t urls st)) = image_counter st + length urls"
  using download_images_distinct [of env d t urls st]
    local_image_name_counter [of env u t h m a u' h' n b]
    download_images_counter [of env d t urls st]
  by blast

text \<open>
  Claim C8. The local file names built for the images of one page are to be pairwise
  distinct, also when two images have the same address or the same digest, because the
  counter in the name grows from call to call; the comments on lines 278 and 342 say
  that the names are unique. Under the executor the code does not ensure it: the counter
  is one field shared by the workers, and when the worker of \<open>Beta\<close> runs line 511
  between the two downloads of \<open>Alpha\<close>, both images of \<open>Alpha\<close> are saved under the
  same name, so that the second file replaces the first. Taken one after the other, the
  same two pages save four files under four names.
\<close>

theorem shared_counter_names_collide:
  "image_files (fst (pool_run two_image_env [''output'', ''section'']
      (collect_all [''output'', ''section''] alpha_beta)
      [0, 0, 0, 0, 0, 0, 0, 1, 1, 1, 0, 0, 0, 0, 1, 1, 1, 1, 1, 1, 1, 1]
      (pool_start (collect_all [''output'', ''section''] alpha_beta) fresh))) =
     [[''output'', ''section'', ''images'', ''alpha_image_00000000_1.png''],
      [''output'', ''section'', ''images'', ''alpha_image_00000000_1.png''],
      [''output'', ''section'', ''images'', ''beta_image_00000000_2.png''],
      [''output'', ''section'', ''images'', ''beta_image_00000000_3.png'']] \<and>
   snd (pool_run two_image_env [''output'', ''section'']
      (collect_all [''output'', ''section''] alpha_beta)
      [0, 0, 0, 0, 0, 0, 0, 1, 1, 1, 0, 0, 0, 0, 1, 1, 1, 1, 1, 1, 1, 1]
      (pool_start (collect_all [''output'', ''section''] alpha_beta) fresh)) =
     [Finished (Inr ()), Finished (Inr ())] \<and>
   image_files (snd (run_tasks two_image_env [''output'', ''section'']
      (collect_all [''output'', ''section''] alpha_beta) [] fresh)) =
     [[''output'', ''section'', ''images'', ''alpha_image_00000000_1.png''],
      [''output'', ''section'', ''images'', ''alpha_image_00000000_2.png''],
      [''output'', ''section'', ''images'', ''beta_image_00000000_1.png''],
      [''output'', ''section'', ''images'', ''beta_image_00000000_2.png'']]"
  by code_simp

subsection \<open>Directory layout\<close>

lemma collect_pages_child:
  "collect_pages sec p (Some dir) = (p, Some dir) # map (\<lambda>x. (x, Some dir)) (descendants p)"
proof (induction p)
  case (Page r cs)
  then have eq: "map (\<lambda>c. collect_pages sec c (Some dir)) cs =
      map (\<lambda>c. (c, Some dir) # map (\<lambda>x. (x, Some dir)) (descendants c)) cs"
    by simp
  show ?case by (simp add: eq map_concat comp_def)
qed

lemma collect_pages_top:
  "collect_pages sec p None =
     (p, None) #
     map (\<lambda>x. (x, Some (sec @ [sanitize_filename (ptitle (info p))]))) (descendants p)"
proof (cases p)
  case (Page r cs)
  let ?dir = "sec @ [sanitize_filename (ptitle r)]"
  have eq: "map (\<lambda>c. collect_pages sec c (Some ?dir)) cs =
      map (\<lambda>c. (c, Some ?dir) # map (\<lambda>x. (x, Some ?dir)) (descendants c)) cs"
    by (simp add: collect_pages_child)
  show ?thesis using Page by (simp add: eq map_concat comp_def)
qed

lemma collect_all_layout:
  "collect_all sec pages =
     concat (map (\<lambda>tp. (tp, None) #
        map (\<lambda>x. (x, Some (sec @ [sanitize_filename (ptitle (info tp))]))) (descendants tp))
      pages)"
proof -
  have "(\<lambda>page. collect_pages sec page None) =
      (\<lambda>tp. (tp, None) #
         map (\<lambda>x. (x, Some (sec @ [sanitize_filename (ptitle (info tp))]))) (descendants tp))"
    by (rule ext) (rule collect_pages_top)
  then show ?thesis by (simp add: collect_all_def)
qed

lemma collect_all_member:
  assumes "task \<in> set (collect_all sec pages)"
  shows "\<exists>tp\<in>set pages. task = (tp, None) \<or>
           (\<exists>x\<in>set (descendants tp).
              task = (x, Some (sec @ [sanitize_filename (ptitle (info tp))])))"
  using assms unfolding collect_all_layout by auto

lemma descendants_children: "x \<in> set (descendants tp) \<Longrightarrow> children tp \<noteq> []"
  by (cases tp) auto

lemma page_paths_top:
  "page_paths tp sec None =
     (if children tp \<noteq> [] then sec @ [sanitize_filename (ptitle (info tp))] else sec,
      sec @ [sanitize_filename (ptitle (info tp)) @ ''.md''], False)"
  by (simp add: page_paths_def Let_def)

lemma page_paths_nested:
  "page_paths x sec (Some dir) = (dir, dir @ [sanitize_filename (ptitle (info x)) @ ''.md''], True)"
  by (simp add: page_paths_def Let_def)

lemma page_mkdirs_top:
  "page_mkdirs tp sec None =
     (if children tp \<noteq> [] then [sec @ [sanitize_filename (ptitle (info tp))]] else [])
     @ [sec @ [''images'']]"
  by (simp add: page_mkdirs_def page_paths_top)

lemma page_mkdirs_nested: "page_mkdirs x sec (Some dir) = [dir, sec @ [''images'']]"
  by (simp add: page_mkdirs_def page_paths_nested)

text \<open>
  Claim C3, as amended. Whatever the order in which the workers take their steps, the
  files of a section lie as follows. The section has one directory \<open>images\<close>, and
  every image file of every page, at any depth, is saved directly in it. A top-level
  page writes its Markdown file directly into the directory of the section; if it has
  children it also owns a directory named after its sanitized title, next to that file.
  Every descendant of a top-level page, at any depth, writes its Markdown file directly
  into the directory of that top-level page; a nested page owns no directory of its own,
  whether it has children or not. So the only directories that are created are the
  directory of the section, its \<open>images\<close> and the directories of the top-level pages
  that have children; every Markdown file that is written lies at the place of a
  top-level page or of a descendant; a file that is left incomplete lies at such a place
  or in \<open>images\<close>; and a task that has finished without an exception has written the
  Markdown file of its page and has created \<open>images\<close> and, for a top-level page with
  children and for a nested page, the directory of the top-level page.
\<close>

theorem layout_flat_below_top_level:
  assumes "pool_run env sec (collect_all sec pages) sched
             (pool_start (collect_all sec pages) st0) = (st, ps)"
  shows "collect_all sec pages =
       concat (map (\<lambda>tp. (tp, None) #
          map (\<lambda>x. (x, Some (sec @ [sanitize_filename (ptitle (info tp))]))) (descendants tp))
        pages) \<and>
     (\<forall>d\<in>set (dirs st). d \<in> set (dirs st0) \<or> d = sec \<or> d = sec @ [''images''] \<or>
        (\<exists>tp\<in>set pages. children tp \<noteq> [] \<and>
           d = sec @ [sanitize_filename (ptitle (info tp))])) \<and>
     (\<forall>f\<in>set (image_files st). f \<in> set (image_files st0) \<or>
        (\<exists>name. f = sec @ [''images'', name])) \<and>
     (\<forall>e\<in>set (markdown_files st). e \<in> set (markdown_files st0) \<or>
        (\<exists>tp\<in>set pages.
           fst e = sec @ [sanitize_filename (ptitle (info tp)) @ ''.md''] \<or>
           (\<exists>x\<in>set (descendants tp).
              fst e = sec @ [sanitize_filename (ptitle (info tp)),
                             sanitize_filename (ptitle (info x)) @ ''.md'']))) \<and>
     (\<forall>f\<in>set (partial_files st). f \<in> set (partial_files st0) \<or>
        (\<exists>name. f = sec @ [''images'', name]) \<or>
        (\<exists>tp\<in>set pages.
           f = sec @ [sanitize_filename (ptitle (info tp)) @ ''.md''] \<or>
           (\<exists>x\<in>set (descendants tp).
              f = sec @ [sanitize_filename (ptitle (info tp)),
                         sanitize_filename (ptitle (info x)) @ ''.md'']))) \<and>
     (\<forall>i<length (collect_all sec pages). ps ! i = Finished (Inr ()) \<longrightarrow>
        (\<exists>text. (fst (snd (page_paths (fst (collect_all sec pages ! i)) sec
                               (snd (collect_all sec pages ! i)))), text)
                  \<in> set (markdown_files st)) \<and>
        set (page_mkdirs (fst (collect_all sec pages ! i)) sec
               (snd (collect_all sec pages ! i))) \<subseteq> set (dirs st)) \<and>
     page_mkdirs tp sec None =
       (if children tp \<noteq> [] then [sec @ [sanitize_filename (ptitle (info tp))]] else [])
       @ [sec @ [''images'']] \<and>
     page_mkdirs x sec (Some (sec @ [sanitize_filename (ptitle (info tp))])) =
       [sec @ [sanitize_filename (ptitle (info tp))], sec @ [''images'']] \<and>
     page_paths tp sec None =
       (if children tp \<noteq> [] then sec @ [sanitize_filename (ptitle (info tp))] else sec,
        sec @ [sanitize_filename (ptitle (info tp)) @ ''.md''], False) \<and>
     page_paths x sec (Some (sec @ [sanitize_filename (ptitle (info tp))])) =
       (sec @ [sanitize_filename (ptitle (info tp))],
        sec @ [sanitize_filename (ptitle (info tp)), sanitize_filename (ptitle (info x)) @ ''.md''],
        True)"
proof -
  let ?tasks = "collect_all sec pages"
  let ?md = "\<lambda>task. fst (snd (page_paths (fst task) sec (snd task)))"
  let ?top = "\<lambda>tp. sec @ [sanitize_filename (ptitle (info tp)) @ ''.md'']"
  let ?nested = "\<lambda>tp x. sec @ [sanitize_filename (ptitle (info tp)),
      sanitize_filename (ptitle (info x)) @ ''.md'']"
  have "length (replicate (length ?tasks) Queued) = length ?tasks" by simp
  from pool_run_effect [OF this assms [unfolded pool_start_def]] obtain ds ims mds pfs
    where d: "dirs st = dirs st0 @ ds" and i: "image_files st = image_files st0 @ ims"
      and m: "markdown_files st = markdown_files st0 @ mds"
      and p: "partial_files st = partial_files st0 @ pfs"
      and dsP: "list_all (\<lambda>d. \<exists>task\<in>set ?tasks. d = butlast (?md task) \<or>
                   d \<in> set (page_mkdirs (fst task) sec (snd task))) ds"
      and imsP: "list_all (\<lambda>f. \<exists>name. f = sec @ [''images'', name]) ims"
      and mdsP: "list_all (\<lambda>e. \<exists>task\<in>set ?tasks. fst e = ?md task) mds"
      and pfsP: "list_all (\<lambda>f. (\<exists>name. f = sec @ [''images'', name]) \<or>
                   (\<exists>task\<in>set ?tasks. f = ?md task)) pfs"
      and finP: "\<forall>j<length ?tasks. ps ! j = Finished (Inr ()) \<longrightarrow>
          replicate (length ?tasks) Queued ! j = Finished (Inr ()) \<or>
          (\<exists>e\<in>set mds. fst e = ?md (?tasks ! j))"
    by blast
  have md_place: "\<exists>tp\<in>set pages. ?md task = ?top tp \<or>
      (\<exists>x\<in>set (descendants tp). ?md task = ?nested tp x)"
    if "task \<in> set ?tasks" for task
  proof -
    from collect_all_member [OF that] obtain tp where tp: "tp \<in> set pages"
      and c: "task = (tp, None) \<or> (\<exists>x\<in>set (descendants tp).
          task = (x, Some (sec @ [sanitize_filename (ptitle (info tp))])))"
      by blast
    from c have "?md task = ?top tp \<or> (\<exists>x\<in>set (descendants tp). ?md task = ?nested tp x)"
      by (auto simp: page_paths_top page_paths_nested)
    with tp show ?thesis by blast
  qed
  have dir_place: "d = sec \<or> d = sec @ [''images''] \<or>
      (\<exists>tp\<in>set pages. children tp \<noteq> [] \<and> d = sec @ [sanitize_filename (ptitle (info tp))])"
    if task: "task \<in> set ?tasks"
      and d: "d = butlast (?md task) \<or> d \<in> set (page_mkdirs (fst task) sec (snd task))"
    for task d
  proof -
    from collect_all_member [OF task] obtain tp where tp: "tp \<in> set pages"
      and c: "task = (tp, None) \<or> (\<exists>x\<in>set (descendants tp).
          task = (x, Some (sec @ [sanitize_filename (ptitle (info tp))])))"
      by blast
    from c show ?thesis
    proof
      assume "task = (tp, None)"
      with d have "d = sec \<or> d = sec @ [''images''] \<or>
          (children tp \<noteq> [] \<and> d = sec @ [sanitize_filename (ptitle (info tp))])"
        by (auto simp: page_paths_top page_mkdirs_top split: if_splits)
      with tp show ?thesis by blast
    next
      assume "\<exists>x\<in>set (descendants tp).
          task = (x, Some (sec @ [sanitize_filename (ptitle (info tp))]))"
      then obtain x where x: "x \<in> set (descendants tp)"
        and t: "task = (x, Some (sec @ [sanitize_filename (ptitle (info tp))]))"
        by blast
      from x have "children tp \<noteq> []" by (rule descendants_children)
      moreover from d t have "d = sec @ [''images''] \<or>
          d = sec @ [sanitize_filename (ptitle (info tp))]"
        by (auto simp: page_paths_nested page_mkdirs_nested butlast_append)
      ultimately show ?thesis using tp by blast
    qed
  qed
  have 2: "\<forall>d\<in>set (dirs st). d \<in> set (dirs st0) \<or> d = sec \<or> d = sec @ [''images''] \<or>
      (\<exists>tp\<in>set pages. children tp \<noteq> [] \<and> d = sec @ [sanitize_filename (ptitle (info tp))])"
  proof
    fix d' assume "d' \<in> set (dirs st)"
    then consider "d' \<in> set (dirs st0)" | "d' \<in> set ds" unfolding d by auto
    then show "d' \<in> set (dirs st0) \<or> d' = sec \<or> d' = sec @ [''images''] \<or>
      (\<exists>tp\<in>set pages. children tp \<noteq> [] \<and> d' = sec @ [sanitize_filename (ptitle (info tp))])"
    proof cases
      case 1
      then show ?thesis by simp
    next
      case 2
      with dsP obtain task where "task \<in> set ?tasks"
        and "d' = butlast (?md task) \<or> d' \<in> set (page_mkdirs (fst task) sec (snd task))"
        unfolding list_all_iff by blast
      from dir_place [OF this] show ?thesis by simp
    qed
  qed
  have 3: "\<forall>f\<in>set (image_files st). f \<in> set (image_files st0) \<or>
      (\<exists>name. f = sec @ [''images'', name])"
    using imsP unfolding i list_all_iff by auto
  have 4: "\<forall>e\<in>set (markdown_files st). e \<in> set (markdown_files st0) \<or>
      (\<exists>tp\<in>set pages. fst e = ?top tp \<or> (\<exists>x\<in>set (descendants tp). fst e = ?nested tp x))"
  proof
    fix e assume "e \<in> set (markdown_files st)"
    then consider "e \<in> set (markdown_files st0)" | "e \<in> set mds" unfolding m by auto
    then show "e \<in> set (markdown_files st0) \<or>
      (\<exists>tp\<in>set pages. fst e = ?top tp \<or> (\<exists>x\<in>set (descendants tp). fst e = ?nested tp x))"
    proof cases
      case 1
      then show ?thesis by simp
    next
      case 2
      with mdsP obtain task where "task \<in> set ?tasks" and e: "fst e = ?md task"
        unfolding list_all_iff by blast
      from md_place [OF this(1)] e show ?thesis by simp
    qed
  qed
  have 5: "\<forall>f\<in>set (partial_files st). f \<in> set (partial_files st0) \<or>
      (\<exists>name. f = sec @ [''images'', name]) \<or>
      (\<exists>tp\<in>set pages. f = ?top tp \<or> (\<exists>x\<in>set (descendants tp). f = ?nested tp x))"
  proof
    fix f assume "f \<in> set (partial_files st)"
    then consider "f \<in> set (partial_files st0)" | "f \<in> set pfs" unfolding p by auto
    then show "f \<in> set (partial_files st0) \<or> (\<exists>name. f = sec @ [''images'', name]) \<or>
      (\<exists>tp\<in>set pages. f = ?top tp \<or> (\<exists>x\<in>set (descendants tp). f = ?nested tp x))"
    proof cases
      case 1
      then show ?thesis by simp
    next
      case 2
      with pfsP consider "\<exists>name. f = sec @ [''images'', name]"
        | task where "task \<in> set ?tasks" and "f = ?md task"
        unfolding list_all_iff by blast
      then show ?thesis
      proof cases
        case 1
        then show ?thesis by simp
      next
        case 2
        from md_place [OF 2(1)] 2(2) show ?thesis by simp
      qed
    qed
  qed
  have "\<forall>j<length ?tasks. \<not> entered (replicate (length ?tasks) Queued ! j)"
    by (simp add: entered_def)
  from pool_run_entered [OF \<open>length (replicate (length ?tasks) Queued) = length ?tasks\<close> this
      assms [unfolded pool_start_def]]
  have made: "\<forall>j<length ?tasks. entered (ps ! j) \<longrightarrow>
      set (page_mkdirs (fst (?tasks ! j)) sec (snd (?tasks ! j))) \<subseteq> set (dirs st)" .
  have 6: "\<forall>j<length ?tasks. ps ! j = Finished (Inr ()) \<longrightarrow>
      (\<exists>text. (?md (?tasks ! j), text) \<in> set (markdown_files st)) \<and>
      set (page_mkdirs (fst (?tasks ! j)) sec (snd (?tasks ! j))) \<subseteq> set (dirs st)"
  proof (intro allI impI conjI)
    fix j assume j: "j < length ?tasks" and f: "ps ! j = Finished (Inr ())"
    with finP have "\<exists>e\<in>set mds. fst e = ?md (?tasks ! j)" by simp
    then obtain e where e: "e \<in> set mds" and fe: "fst e = ?md (?tasks ! j)" by blast
    from fe have "(?md (?tasks ! j), snd e) = e" by (simp add: prod_eq_iff)
    with e have "(?md (?tasks ! j), snd e) \<in> set (markdown_files st)"
      unfolding m by simp
    then show "\<exists>text. (?md (?tasks ! j), text) \<in> set (markdown_files st)" by blast
    from f have "entered (ps ! j)" by (simp add: entered_def)
    with made j show "set (page_mkdirs (fst (?tasks ! j)) sec (snd (?tasks ! j))) \<subseteq> set (dirs st)"
      by blast
  qed
  from collect_all_layout [of sec pages] 2 3 4 5 6 page_paths_top [of tp sec]
    page_paths_nested [of x sec "sec @ [sanitize_filename (ptitle (info tp))]"]
    page_mkdirs_top [of tp sec]
    page_mkdirs_nested [of x sec "sec @ [sanitize_filename (ptitle (info tp))]"]
  show ?thesis by (simp only: append_Cons append_Nil append_assoc)
qed

lemma nested_pages_pool:
  "snd (pool_run sample_env [''output'', ''section'']
          (collect_all [''output'', ''section''] nested_pages)
          [0, 1, 2, 3, 0, 1, 2, 3, 0, 1, 2, 3, 0, 1, 2, 3,
           0, 1, 2, 3, 0, 1, 2, 3, 0, 1, 2, 3, 0, 1, 2, 3]
          (pool_start (collect_all [''output'', ''section''] nested_pages) fresh)) =
     [Finished (Inr ()), Finished (Inr ()), Finished (Inr ()), Finished (Inr ())]"
  by code_simp

lemma nested_pages_third_task:
  "length (collect_all [''output'', ''section''] nested_pages) = 4 \<and>
   fst (snd (page_paths (fst (collect_all [''output'', ''section''] nested_pages ! 2))
     [''output'', ''section''] (snd (collect_all [''output'', ''section''] nested_pages ! 2)))) =
     [''output'', ''section'', ''Plans'', ''January.md''] \<and>
   page_mkdirs (fst (collect_all [''output'', ''section''] nested_pages ! 2))
     [''output'', ''section''] (snd (collect_all [''output'', ''section''] nested_pages ! 2)) =
     [[''output'', ''section'', ''Plans''], [''output'', ''section'', ''images'']]"
  by code_simp

theorem layout_flat_below_top_level_witness:
  "snd (pool_run sample_env [''output'', ''section'']
          (collect_all [''output'', ''section''] nested_pages)
          [0, 1, 2, 3, 0, 1, 2, 3, 0, 1, 2, 3, 0, 1, 2, 3,
           0, 1, 2, 3, 0, 1, 2, 3, 0, 1, 2, 3, 0, 1, 2, 3]
          (pool_start (collect_all [''output'', ''section''] nested_pages) fresh)) =
     [Finished (Inr ()), Finished (Inr ()), Finished (Inr ()), Finished (Inr ())] \<and>
   (\<exists>text. ([''output'', ''section'', ''Plans'', ''January.md''], text) \<in>
      set (markdown_files (fst (pool_run sample_env [''output'', ''section'']
          (collect_all [''output'', ''section''] nested_pages)
          [0, 1, 2, 3, 0, 1, 2, 3, 0, 1, 2, 3, 0, 1, 2, 3,
           0, 1, 2, 3, 0, 1, 2, 3, 0, 1, 2, 3, 0, 1, 2, 3]
          (pool_start (collect_all [''output'', ''section''] nested_pages) fresh))))) \<and>
   [''output'', ''section'', ''Plans''] \<in>
      set (dirs (fst (pool_run sample_env [''output'', ''section'']
          (collect_all [''output'', ''section''] nested_pages)
          [0, 1, 2, 3, 0, 1, 2, 3, 0, 1, 2, 3, 0, 1, 2, 3,
           0, 1, 2, 3, 0, 1, 2, 3, 0, 1, 2, 3, 0, 1, 2, 3]
          (pool_start (collect_all [''output'', ''section''] nested_pages) fresh))))"
proof -
  let ?sec = "[''output'', ''section'']"
  let ?tasks = "collect_all ?sec nested_pages"
  let ?sched = "[0, 1, 2, 3, 0, 1, 2, 3, 0, 1, 2, 3, 0, 1, 2, 3,
                 0, 1, 2, 3, 0, 1, 2, 3, 0, 1, 2, 3, 0, 1, 2, 3] :: nat list"
  let ?run = "pool_run sample_env ?sec ?tasks ?sched (pool_start ?tasks fresh)"
  have "?run = (fst ?run, snd ?run)" by simp
  from layout_flat_below_top_level [OF this]
  have "\<forall>i<length ?tasks. snd ?run ! i = Finished (Inr ()) \<longrightarrow>
      (\<exists>text. (fst (snd (page_paths (fst (?tasks ! i)) ?sec (snd (?tasks ! i)))), text)
                \<in> set (markdown_files (fst ?run))) \<and>
      set (page_mkdirs (fst (?tasks ! i)) ?sec (snd (?tasks ! i))) \<subseteq> set (dirs (fst ?run))"
    by blast
  moreover have "(2::nat) < length ?tasks" using nested_pages_third_task by simp
  moreover have "snd ?run ! 2 = Finished (Inr ())" unfolding nested_pages_pool by simp
  ultimately have "(\<exists>text. (fst (snd (page_paths (fst (?tasks ! 2)) ?sec (snd (?tasks ! 2)))), text)
                \<in> set (markdown_files (fst ?run))) \<and>
      set (page_mkdirs (fst (?tasks ! 2)) ?sec (snd (?tasks ! 2))) \<subseteq> set (dirs (fst ?run))"
    by blast
  then show ?thesis using nested_pages_pool nested_pages_third_task by simp
qed

text \<open>
  The claim as it was stated says that a nested page with children owns a directory too,
  and that a childless page lies in the directory of its parent. In the sample section
  the page \<open>Q1\<close> is nested and has the child \<open>January\<close>: no directory
  \<open>Plans/Q1\<close> is created, and \<open>January.md\<close> is written into \<open>Plans\<close>, next to
  \<open>Q1.md\<close>.
\<close>

lemma nested_pages_markdown:
  "map (\<lambda>(p, pd). markdown_files (snd (process_page sample_env p [''output'', ''section''] pd fresh)))
     (collect_all [''output'', ''section''] nested_pages) =
   [[([''output'', ''section'', ''Plans.md''], ''# Plans\<newline>\<newline>text'')],
    [([''output'', ''section'', ''Plans'', ''Q1.md''], ''# Q1\<newline>\<newline>text'')],
    [([''output'', ''section'', ''Plans'', ''January.md''], ''# January\<newline>\<newline>text'')],
    [([''output'', ''section'', ''Notes.md''], ''# Notes\<newline>\<newline>text'')]]"
  by code_simp

lemma nested_pages_dirs:
  "map (\<lambda>(p, pd). dirs (snd (process_page sample_env p [''output'', ''section''] pd fresh)))
     (collect_all [''output'', ''section''] nested_pages) =
   [[[''output'', ''section'', ''Plans''], [''output'', ''section'', ''images''],
     [''output'', ''section'']],
    [[''output'', ''section'', ''Plans''], [''output'', ''section'', ''images''],
     [''output'', ''section'', ''Plans'']],
    [[''output'', ''section'', ''Plans''], [''output'', ''section'', ''images''],
     [''output'', ''section'', ''Plans'']],
    [[''output'', ''section'', ''images''], [''output'', ''section'']]]"
  by code_simp

theorem nested_page_owns_no_directory_counterexample:
  "map fst (markdown_files (snd (run_tasks sample_env [''output'', ''section'']
      (collect_all [''output'', ''section''] nested_pages) [] fresh))) =
     [[''output'', ''section'', ''Plans.md''],
      [''output'', ''section'', ''Plans'', ''Q1.md''],
      [''output'', ''section'', ''Plans'', ''January.md''],
      [''output'', ''section'', ''Notes.md'']] \<and>
   [''output'', ''section'', ''Plans'', ''Q1''] \<notin>
     set (dirs (snd (run_tasks sample_env [''output'', ''section'']
      (collect_all [''output'', ''section''] nested_pages) [] fresh)))"
  using run_tasks_from_fresh [of sample_env "[''output'', ''section'']"
      "collect_all [''output'', ''section''] nested_pages" "[]" fresh,
      unfolded nested_pages_markdown nested_pages_dirs]
  by (simp add: fresh_fields)

lemma five_pages_results:
  "map (\<lambda>(p, pd). case fst (process_page sample_env p [''output'', ''section''] pd fresh) of
                     Inl e \<Rightarrow> [(ptitle (info p), e)] | Inr u \<Rightarrow> [])
     (collect_all [''output'', ''section''] five_pages) =
   [[], [], [(''Page 3'', ''fetch failed'')], [], []]"
  by code_simp

lemma five_pages_markdown:
  "map (\<lambda>(p, pd). markdown_files (snd (process_page sample_env p [''output'', ''section''] pd fresh)))
     (collect_all [''output'', ''section''] five_pages) =
   [[([''output'', ''section'', ''Page 1.md''], ''# Page 1\<newline>\<newline>text'')],
    [([''output'', ''section'', ''Page 2.md''], ''# Page 2\<newline>\<newline>text'')],
    [],
    [([''output'', ''section'', ''Page 4.md''], ''# Page 4\<newline>\<newline>text'')],
    [([''output'', ''section'', ''Page 5.md''], ''# Page 5\<newline>\<newline>text'')]]"
  by code_simp

lemma five_pages_run:
  "fst (run_tasks sample_env [''output'', ''section'']
          (collect_all [''output'', ''section''] five_pages) [] fresh) =
     [(''Page 3'', ''fetch failed'')] \<and>
   map fst (markdown_files (snd (run_tasks sample_env [''output'', ''section'']
          (collect_all [''output'', ''section''] five_pages) [] fresh))) =
     [[''output'', ''section'', ''Page 1.md''], [''output'', ''section'', ''Page 2.md''],
      [''output'', ''section'', ''Page 4.md''], [''output'', ''section'', ''Page 5.md'']]"
  using run_tasks_from_fresh [of sample_env "[''output'', ''section'']"
      "collect_all [''output'', ''section''] five_pages" "[]" fresh,
      unfolded five_pages_results five_pages_markdown]
  by (simp add: fresh_fields)

text \<open>
  Claim C4. An exception raised while a page is processed (by the fetch of its content,
  by the conversion or by a write) is caught at the task: the title of the page and the
  message are appended to the list of failures, and the tasks after it run as they would
  have run otherwise. The list of failures holds exactly the pages whose processing
  fails, in the order of the tasks; a page whose processing does not fail has its
  Markdown file written, a page whose processing fails has none; what a page does is
  the same wherever it stands in the batch. For five pages of which the third cannot be
  fetched, the one failure names that page and four Markdown files are written.
  The tasks are taken one after the other; the source runs up to five of them at the
  same time and collects the results in the same order.
\<close>

theorem page_failure_does_not_abort_batch:
  "fst (run_tasks env out tasks [] st) =
     concat (map (\<lambda>(p, pd). case fst (process_page env p out pd fresh) of
                               Inl e \<Rightarrow> [(ptitle (info p), e)] | Inr u \<Rightarrow> []) tasks) \<and>
   markdown_files (snd (run_tasks env out tasks [] st)) =
     markdown_files st @
     concat (map (\<lambda>(p, pd). markdown_files (snd (process_page env p out pd fresh))) tasks) \<and>
   (case fst (process_page env page out parent_dir fresh) of
      Inl e \<Rightarrow> markdown_files (snd (process_page env page out parent_dir fresh)) = []
    | Inr u \<Rightarrow> \<exists>content. markdown_files (snd (process_page env page out parent_dir fresh)) =
        [(fst (snd (page_paths page out parent_dir)), content)]) \<and>
   fst (process_page env page out parent_dir st) = fst (process_page env page out parent_dir fresh) \<and>
   fst (run_tasks sample_env [''output'', ''section'']
          (collect_all [''output'', ''section''] five_pages) [] fresh) =
     [(''Page 3'', ''fetch failed'')] \<and>
   map fst (markdown_files (snd (run_tasks sample_env [''output'', ''section'']
          (collect_all [''output'', ''section''] five_pages) [] fresh))) =
     [[''output'', ''section'', ''Page 1.md''], [''output'', ''section'', ''Page 2.md''],
      [''output'', ''section'', ''Page 4.md''], [''output'', ''section'', ''Page 5.md'']]"
  using run_tasks_from_fresh [of env out tasks "[]" st]
    process_page_markdown [of env page out parent_dir]
    process_page_from_fresh [of env page out parent_dir st]
    five_pages_run
  by simp

theorem page_failure_does_not_abort_batch_witness:
  "length (fst (run_tasks sample_env [''output'', ''section'']
          (collect_all [''output'', ''section''] five_pages) [] fresh)) = 1 \<and>
   length (markdown_files (snd (run_tasks sample_env [''output'', ''section'']
          (collect_all [''output'', ''section''] five_pages) [] fresh))) = 4 \<and>
   length (collect_all [''output'', ''section''] five_pages) = 5"
proof -
  let ?run = "run_tasks sample_env [''output'', ''section'']
          (collect_all [''output'', ''section''] five_pages) [] fresh"
  note t = page_failure_does_not_abort_batch [of sample_env "[''output'', ''section'']" "[]" fresh]
  from t have f: "fst ?run = [(''Page 3'', ''fetch failed'')]" by blast
  from t have m: "map fst (markdown_files (snd ?run)) =
     [[''output'', ''section'', ''Page 1.md''], [''output'', ''section'', ''Page 2.md''],
      [''output'', ''section'', ''Page 4.md''], [''output'', ''section'', ''Page 5.md'']]"
    by blast
  have "length (markdown_files (snd ?run)) = length (map fst (markdown_files (snd ?run)))"
    by simp
  also have "\<dots> = 4" unfolding m by simp
  finally have 4: "length (markdown_files (snd ?run)) = 4" .
  have 5: "length (collect_all [''output'', ''section''] five_pages) = 5"
    by (simp add: collect_all_def five_pages_def sample_page_def)
  from f 4 5 show ?thesis by simp
qed

subsection \<open>Page tree\<close>

lemma build_upto_0: "build_upto ps 0 = empty_tree"
  by (simp add: build_upto_def)

lemma build_upto_Suc: "build_upto ps (Suc k) = add_page ps (build_upto ps k) k"
  by (simp add: build_upto_def)

lemma add_page_cases:
  "page_map (add_page ps s i) = dict_set (page_map s) (pid (ps ! i)) i \<and>
   (case (if plevel (ps ! i) = 0 then None
          else find_parent ps (dict_set (page_map s) (pid (ps ! i)) i) (plevel (ps ! i))) of
      None \<Rightarrow> root_pages (add_page ps s i) = root_pages s @ [i] \<and>
               kids (add_page ps s i) = (kids s)(i := [])
    | Some p \<Rightarrow> root_pages (add_page ps s i) = root_pages s \<and>
               kids (add_page ps s i) = (kids s)(i := [], p := ((kids s)(i := [])) p @ [i]))"
  by (auto simp: add_page_def Let_def split: option.splits)

lemma dict_set_values: "set (map snd (dict_set d key v)) \<subseteq> insert v (set (map snd d))"
  by (induction d key v rule: dict_set.induct) auto

lemma dict_set_new: "key \<notin> fst ` set d \<Longrightarrow> dict_set d key v = d @ [(key, v)]"
  by (induction d key v rule: dict_set.induct) auto

lemma find_SomeD: "find P xs = Some x \<Longrightarrow> x \<in> set xs \<and> P x"
  by (induction xs) (auto split: if_splits)

lemma find_parent_bound:
  assumes "find_parent ps pm (plevel (ps ! i)) = Some p"
    and "\<forall>v\<in>set (map snd pm). v \<le> i"
  shows "p < i"
proof -
  from assms(1) have "p \<in> set (map snd pm)" and "plevel (ps ! p) = plevel (ps ! i) - 1"
    using find_SomeD [of "\<lambda>prev. plevel (ps ! prev) = plevel (ps ! i) - 1" "rev (map snd pm)" p]
    by (simp_all add: find_parent_def)
  with assms(2) have "p \<le> i" and "p \<noteq> i" by auto
  then show ?thesis by simp
qed

lemma sum_mset_fun_upd:
  "p < n \<Longrightarrow> (\<Sum>q<n. mset ((f(p := f p @ [x])) q)) = (\<Sum>q<(n::nat). mset (f q)) + {#x#}"
proof (induction n)
  case 0
  then show ?case by simp
next
  case (Suc n)
  show ?case
  proof (cases "p = n")
    case True
    then have "(\<Sum>q<n. mset ((f(p := f p @ [x])) q)) = (\<Sum>q<n. mset (f q))"
      by (intro sum.cong) auto
    with True show ?thesis by simp
  next
    case False
    with Suc.prems have "p < n" by simp
    with Suc.IH False show ?thesis by simp
  qed
qed

lemma build_upto_inv:
  assumes "k \<le> length ps"
  shows "(\<forall>v\<in>set (map snd (page_map (build_upto ps k))). v < k) \<and>
         (\<forall>p c. c \<in> set (kids (build_upto ps k) p) \<longrightarrow> p < c \<and> c < k) \<and>
         mset (root_pages (build_upto ps k)) + (\<Sum>p<length ps. mset (kids (build_upto ps k) p))
           = mset [0..<k]"
  using assms
proof (induction k)
  case 0
  then show ?case by (simp add: build_upto_0 empty_tree_def)
next
  case (Suc k)
  let ?s = "build_upto ps k"
  let ?s' = "add_page ps ?s k"
  let ?pm = "dict_set (page_map ?s) (pid (ps ! k)) k"
  from Suc have k: "k < length ps"
    and vals: "\<forall>v\<in>set (map snd (page_map ?s)). v < k"
    and kd: "\<forall>p c. c \<in> set (kids ?s p) \<longrightarrow> p < c \<and> c < k"
    and all: "mset (root_pages ?s) + (\<Sum>p<length ps. mset (kids ?s p)) = mset [0..<k]"
    by simp_all
  have "kids ?s k = []"
  proof (rule ccontr)
    assume "kids ?s k \<noteq> []"
    then obtain c where "c \<in> set (kids ?s k)" by (cases "kids ?s k") auto
    with kd have "k < c" and "c < k" by blast+
    then show False by (rule less_asym)
  qed
  then have same: "(kids ?s)(k := []) = kids ?s" by auto
  have vals': "\<forall>v\<in>set (map snd ?pm). v \<le> k"
    using dict_set_values [of "page_map ?s" "pid (ps ! k)" k] vals by fastforce
  note c = add_page_cases [of ps ?s k]
  from c have pm: "page_map ?s' = ?pm" by simp
  have a: "\<forall>v\<in>set (map snd (page_map ?s')). v < Suc k"
    using vals' pm by (simp add: less_Suc_eq_le)
  show ?case
  proof (cases "if plevel (ps ! k) = 0 then None else find_parent ps ?pm (plevel (ps ! k))")
    case None
    with c same have r: "root_pages ?s' = root_pages ?s @ [k]" and kk: "kids ?s' = kids ?s"
      by simp_all
    from kd kk have b: "\<forall>p c. c \<in> set (kids ?s' p) \<longrightarrow> p < c \<and> c < Suc k"
      by (simp add: less_Suc_eq)
    from all r kk have "mset (root_pages ?s') + (\<Sum>p<length ps. mset (kids ?s' p)) = mset [0..<Suc k]"
      by simp
    with a b show ?thesis unfolding build_upto_Suc by blast
  next
    case (Some p)
    with c same have r: "root_pages ?s' = root_pages ?s"
      and kk: "kids ?s' = (kids ?s)(p := kids ?s p @ [k])"
      by simp_all
    from Some have "find_parent ps ?pm (plevel (ps ! k)) = Some p" by (simp split: if_splits)
    from find_parent_bound [OF this vals'] have p: "p < k" .
    from kd kk p have b: "\<forall>q c. c \<in> set (kids ?s' q) \<longrightarrow> q < c \<and> c < Suc k"
      by (auto simp: less_Suc_eq)
    from p k have "p < length ps" by simp
    from sum_mset_fun_upd [OF this, of "kids ?s" k] all r kk
    have "mset (root_pages ?s') + (\<Sum>p<length ps. mset (kids ?s' p)) = mset [0..<Suc k]"
      by (simp add: ac_simps)
    with a b show ?thesis unfolding build_upto_Suc by blast
  qed
qed

declare node_of.simps [simp del]

lemma node_of_unfold:
  assumes "\<forall>c\<in>set (kd i). i < c \<and> c < length ps"
  shows "node_of ps kd i = Page (ps ! i) (map (node_of ps kd) (kd i))"
proof -
  from assms have "filter (\<lambda>c. i < c \<and> c < length ps) (kd i) = kd i"
    by (simp add: filter_id_conv)
  then show ?thesis by (simp add: node_of.simps [of ps kd i])
qed

lemma mset_flatten_node:
  assumes "\<forall>c\<in>set (kd i). i < c \<and> c < length ps"
  shows "mset (flatten (node_of ps kd i)) =
    add_mset (ps ! i) (\<Sum>c\<in>#mset (kd i). mset (flatten (node_of ps kd c)))"
proof -
  have "mset (concat (map (\<lambda>c. flatten (node_of ps kd c)) (kd i))) =
      sum_list (map (\<lambda>c. mset (flatten (node_of ps kd c))) (kd i))"
    by (simp add: mset_concat comp_def)
  also have "\<dots> = (\<Sum>c\<in>#mset (kd i). mset (flatten (node_of ps kd c)))"
    by (metis mset_map sum_mset_sum_list)
  finally show ?thesis
    using node_of_unfold [of kd i ps] assms by (simp add: comp_def)
qed

lemma forest_mset:
  fixes kd :: "nat \<Rightarrow> nat list"
  assumes ac: "\<forall>p c. c \<in> set (kd p) \<longrightarrow> p < c \<and> c < length ps"
    and once: "mset roots + (\<Sum>p<length ps. mset (kd p)) = mset [0..<length ps]"
  shows "mset (concat (map (\<lambda>r. flatten (node_of ps kd r)) roots)) = mset ps"
proof -
  let ?n = "length ps"
  let ?T = "\<lambda>i. mset (flatten (node_of ps kd i))"
  define B where "B k = mset roots + (\<Sum>p<k. mset (kd p))" for k
  have B_Suc: "B (Suc k) = B k + mset (kd k)" for k
    by (simp add: B_def)
  have B_n: "B ?n = mset [0..<?n]"
    using once by (simp add: B_def)
  have kd_gt: "count (mset (kd m)) j = 0" if "j \<le> m" for m j
  proof -
    have "j \<notin> set (kd m)"
    proof
      assume "j \<in> set (kd m)"
      with ac have "m < j" by blast
      with that show False by simp
    qed
    then show ?thesis by (simp add: count_eq_zero_iff)
  qed
  have count_up: "count (B (k + d)) j = count (B k) j" if "j \<le> k" for k d j
  proof (induction d)
    case 0
    then show ?case by simp
  next
    case (Suc d)
    have "count (B (k + Suc d)) j = count (B (k + d)) j + count (mset (kd (k + d))) j"
      by (simp add: B_Suc)
    also have "count (mset (kd (k + d))) j = 0" using that by (intro kd_gt) simp
    finally show ?case using Suc by simp
  qed
  have count_k: "count (B k) k = 1" if "k < ?n" for k
  proof -
    from that have "k + (?n - k) = ?n" by simp
    with count_up [of k k "?n - k"] have "count (B k) k = count (B ?n) k" by simp
    also have "\<dots> = 1" using that by (simp add: B_n mset_upt)
    finally show ?thesis .
  qed
  have H: "(\<Sum>r\<in>#mset roots. ?T r) =
      image_mset ((!) ps) (mset [0..<k]) + (\<Sum>x\<in>#filter_mset (\<lambda>x. k \<le> x) (B k). ?T x)"
    if "k \<le> ?n" for k
    using that
  proof (induction k)
    case 0
    then show ?case by (simp add: B_def)
  next
    case (Suc k)
    then have k: "k < ?n" by simp
    have split: "filter_mset (\<lambda>x. k \<le> x) (B k) =
        add_mset k (filter_mset (\<lambda>x. Suc k \<le> x) (B k))"
      by (rule multiset_eqI) (auto simp: count_k [OF k])
    have "filter_mset (\<lambda>x. Suc k \<le> x) (mset (kd k)) = mset (kd k)"
      using ac by (auto simp: filter_mset_eq_conv Suc_le_eq)
    then have next_B: "filter_mset (\<lambda>x. Suc k \<le> x) (B (Suc k)) =
        filter_mset (\<lambda>x. Suc k \<le> x) (B k) + mset (kd k)"
      by (simp add: B_Suc)
    have Tk: "?T k = add_mset (ps ! k) (\<Sum>c\<in>#mset (kd k). ?T c)"
      using ac by (intro mset_flatten_node) blast
    from Suc.IH k have "(\<Sum>r\<in>#mset roots. ?T r) =
        image_mset ((!) ps) (mset [0..<k]) + (\<Sum>x\<in>#filter_mset (\<lambda>x. k \<le> x) (B k). ?T x)"
      by simp
    also have "\<dots> = image_mset ((!) ps) (mset [0..<Suc k]) +
        (\<Sum>x\<in>#filter_mset (\<lambda>x. Suc k \<le> x) (B (Suc k)). ?T x)"
      by (simp add: split next_B Tk)
    finally show ?case .
  qed
  have "\<forall>x. x \<in># B ?n \<longrightarrow> \<not> ?n \<le> x"
    by (simp add: B_n del: mset_upt)
  then have "filter_mset (\<lambda>x. ?n \<le> x) (B ?n) = {#}"
    by (simp only: filter_mset_eq_mempty_iff)
  with H [of ?n] have "(\<Sum>r\<in>#mset roots. ?T r) = image_mset ((!) ps) (mset [0..<?n])"
    by simp
  also have "\<dots> = mset (map ((!) ps) [0..<?n])" by simp
  also have "\<dots> = mset ps" by (simp add: map_nth)
  finally have "(\<Sum>r\<in>#mset roots. ?T r) = mset ps" .
  moreover have "mset (concat (map (\<lambda>r. flatten (node_of ps kd r)) roots)) =
      sum_list (map ?T roots)"
    by (simp add: mset_concat comp_def)
  moreover have "sum_list (map ?T roots) = (\<Sum>r\<in>#mset roots. ?T r)"
    by (metis mset_map sum_mset_sum_list)
  ultimately show ?thesis by simp
qed

lemma sort_pages_facts:
  "mset (sort_pages all_pages) = mset all_pages"
  "length (sort_pages all_pages) = length all_pages"
  "set (sort_pages all_pages) = set all_pages"
  by (simp_all add: sort_pages_def)

lemma build_state_inv:
  "(\<forall>p c. c \<in> set (kids (build_state ps) p) \<longrightarrow> p < c \<and> c < length ps) \<and>
   mset (root_pages (build_state ps)) + (\<Sum>p<length ps. mset (kids (build_state ps) p))
     = mset [0..<length ps]"
  using build_upto_inv [of "length ps" ps] by (simp add: build_state_def)

lemma build_tree_flatten: "mset (concat (map flatten (build_tree all_pages))) = mset all_pages"
proof -
  let ?ps = "sort_pages all_pages"
  let ?s = "build_state ?ps"
  have "mset (concat (map (\<lambda>r. flatten (node_of ?ps (kids ?s) r)) (root_pages ?s))) = mset ?ps"
    using build_state_inv [of ?ps] by (intro forest_mset) blast+
  then show ?thesis by (simp add: build_tree_def Let_def comp_def sort_pages_facts)
qed

text \<open>
  Claim C10. Every record of the flat list appears exactly once in the forest that the
  tree builder returns: the records of the forest are the records of the list, each as
  often as the list holds it; every page object is either a root or in the children
  list of exactly one page; and a parent was always processed before its child (its
  position in the sorted list is smaller), so the parent relation has no cycle.
\<close>

theorem forest_holds_every_page_once:
  "mset (concat (map flatten (build_tree all_pages))) = mset all_pages \<and>
   mset (root_pages (build_state (sort_pages all_pages))) +
     (\<Sum>p<length all_pages. mset (kids (build_state (sort_pages all_pages)) p))
     = mset [0..<length all_pages] \<and>
   (\<forall>p c. c \<in> set (kids (build_state (sort_pages all_pages)) p) \<longrightarrow> p < c \<and> c < length all_pages)"
  using build_tree_flatten [of all_pages] build_state_inv [of "sort_pages all_pages"]
  by (simp add: sort_pages_facts)

lemma four_pages_sorted: "sort_pages four_pages = four_pages"
  by (simp add: sort_pages_def four_pages_def less_eq_prod_def)

lemma four_pages_state:
  "root_pages (build_state four_pages) = [0, 3] \<and>
   kids (build_state four_pages) 0 = [1, 2] \<and> kids (build_state four_pages) 1 = [] \<and>
   kids (build_state four_pages) 2 = [] \<and> kids (build_state four_pages) 3 = []"
  by code_simp

lemma length_four_pages: "length four_pages = 4"
  by (simp add: four_pages_def)

theorem forest_holds_every_page_once_witness:
  "mset (concat (map flatten (build_tree four_pages))) = mset four_pages \<and>
   root_pages (build_state (sort_pages four_pages)) = [0, 3] \<and>
   kids (build_state (sort_pages four_pages)) 0 = [1, 2] \<and>
   (1 \<in> set (kids (build_state (sort_pages four_pages)) 0) \<and> (0::nat) < 1 \<and> 1 < length four_pages)"
proof -
  have "(1::nat) \<in> set (kids (build_state (sort_pages four_pages)) 0)"
    by (simp add: four_pages_sorted four_pages_state)
  with forest_holds_every_page_once [of four_pages] show ?thesis
    by (simp add: four_pages_sorted four_pages_state length_four_pages)
qed

lemma spec_parent_less: "spec_parent ps i = Some p \<Longrightarrow> p < i"
  using find_SomeD [of "\<lambda>j. plevel (ps ! j) = plevel (ps ! i) - 1" "rev [0..<i]" p]
  by (simp add: spec_parent_def split: if_splits)

lemma build_upto_page_map:
  assumes "distinct (map pid ps)"
  shows "k \<le> length ps \<Longrightarrow> page_map (build_upto ps k) = map (\<lambda>i. (pid (ps ! i), i)) [0..<k]"
proof (induction k)
  case 0
  then show ?case by (simp add: build_upto_0 empty_tree_def)
next
  case (Suc k)
  then have k: "k < length ps"
    and IH: "page_map (build_upto ps k) = map (\<lambda>i. (pid (ps ! i), i)) [0..<k]"
    by simp_all
  have "pid (ps ! k) \<notin> fst ` set (page_map (build_upto ps k))"
  proof
    assume "pid (ps ! k) \<in> fst ` set (page_map (build_upto ps k))"
    then obtain i where i: "i < k" and eq: "pid (ps ! i) = pid (ps ! k)"
      unfolding IH by auto
    from assms i k have "(map pid ps ! i = map pid ps ! k) = (i = k)"
      by (intro nth_eq_iff_index_eq) simp_all
    with i k eq show False by simp
  qed
  then have "dict_set (page_map (build_upto ps k)) (pid (ps ! k)) k =
      page_map (build_upto ps k) @ [(pid (ps ! k), k)]"
    by (rule dict_set_new)
  with add_page_cases [of ps "build_upto ps k" k] IH show ?case
    by (simp add: build_upto_Suc)
qed

lemma code_parent_eq_spec:
  assumes "distinct (map pid ps)" and "k < length ps" and "0 \<le> plevel (ps ! k)"
  shows "(if plevel (ps ! k) = 0 then None
          else find_parent ps (dict_set (page_map (build_upto ps k)) (pid (ps ! k)) k)
                 (plevel (ps ! k))) = spec_parent ps k"
proof -
  from assms(2) have "Suc k \<le> length ps" by simp
  from build_upto_page_map [OF assms(1) this] add_page_cases [of ps "build_upto ps k" k]
  have "dict_set (page_map (build_upto ps k)) (pid (ps ! k)) k =
      map (\<lambda>i. (pid (ps ! i), i)) [0..<Suc k]"
    by (simp only: build_upto_Suc)
  then have "map snd (dict_set (page_map (build_upto ps k)) (pid (ps ! k)) k) = [0..<Suc k]"
    by (simp add: comp_def del: upt_Suc)
  then have "find_parent ps (dict_set (page_map (build_upto ps k)) (pid (ps ! k)) k)
      (plevel (ps ! k)) = find (\<lambda>j. plevel (ps ! j) = plevel (ps ! k) - 1) (rev [0..<k])"
    by (simp add: find_parent_def)
  with assms(3) show ?thesis by (auto simp: spec_parent_def)
qed

lemma filter_upt_Suc: "filter P [0..<Suc k] = filter P [0..<k] @ (if P k then [k] else [])"
  by simp

lemma build_upto_spec:
  assumes "distinct (map pid ps)" and "\<forall>i<length ps. 0 \<le> plevel (ps ! i)"
  shows "k \<le> length ps \<Longrightarrow>
    root_pages (build_upto ps k) = filter (\<lambda>i. spec_parent ps i = None) [0..<k] \<and>
    kids (build_upto ps k) = (\<lambda>p. filter (\<lambda>i. spec_parent ps i = Some p) [0..<k])"
proof (induction k)
  case 0
  then show ?case by (simp add: build_upto_0 empty_tree_def)
next
  case (Suc k)
  let ?s = "build_upto ps k"
  from Suc have k: "k < length ps"
    and roots: "root_pages ?s = filter (\<lambda>i. spec_parent ps i = None) [0..<k]"
    and kd: "kids ?s = (\<lambda>p. filter (\<lambda>i. spec_parent ps i = Some p) [0..<k])"
    by simp_all
  have "kids ?s k = []"
    unfolding kd by (auto simp: filter_empty_conv dest: spec_parent_less)
  then have same: "(kids ?s)(k := []) = kids ?s" by auto
  from assms k have "0 \<le> plevel (ps ! k)" by simp
  note par = code_parent_eq_spec [OF assms(1) k this]
  note c = add_page_cases [of ps ?s k, unfolded par same]
  show ?case
  proof (cases "spec_parent ps k")
    case None
    with c have "root_pages (add_page ps ?s k) = root_pages ?s @ [k]"
      and "kids (add_page ps ?s k) = kids ?s"
      by simp_all
    with None roots kd show ?thesis
      by (simp only: build_upto_Suc filter_upt_Suc) auto
  next
    case (Some q)
    with c have "root_pages (add_page ps ?s k) = root_pages ?s"
      and "kids (add_page ps ?s k) = (kids ?s)(q := kids ?s q @ [k])"
      by simp_all
    with Some roots kd show ?thesis
      by (simp only: build_upto_Suc filter_upt_Suc) auto
  qed
qed

lemma insort_key_spec_insert:
  "insort_key (\<lambda>x. (porder x, plevel x)) x ys = spec_insert x ys"
  by (induction ys) (auto simp: less_eq_prod_def)

lemma sort_pages_spec_sort: "sort_pages all_pages = spec_sort all_pages"
  by (induction all_pages) (simp_all add: sort_pages_def spec_sort_def insort_key_spec_insert)

text \<open>
  The sort of the code puts the records in the order of their keys, keeps every record,
  and keeps the records with the same key in the order of the listing.
\<close>

lemma sort_pages_sorted_stable:
  "sorted (map (\<lambda>x. (porder x, plevel x)) (sort_pages all_pages)) \<and>
   mset (sort_pages all_pages) = mset all_pages \<and>
   filter (\<lambda>x. (porder x, plevel x) = k) (sort_pages all_pages) =
     filter (\<lambda>x. (porder x, plevel x) = k) all_pages"
  by (simp add: sort_pages_def sort_key_stable)

lemma build_tree_eq_spec_tree:
  assumes "distinct (map pid all_pages)" and "\<forall>p\<in>set all_pages. 0 \<le> plevel p"
  shows "build_tree all_pages = spec_tree all_pages"
proof -
  let ?ps = "sort_pages all_pages"
  have "mset (map pid ?ps) = mset (map pid all_pages)" by (simp add: sort_pages_facts)
  with assms(1) have d: "distinct (map pid ?ps)" by (metis mset_eq_imp_distinct_iff)
  have l: "\<forall>i<length ?ps. 0 \<le> plevel (?ps ! i)"
    using assms(2) by (metis nth_mem sort_pages_facts(3))
  from build_upto_spec [OF d l, of "length ?ps"]
  have "root_pages (build_state ?ps) = spec_roots ?ps" and "kids (build_state ?ps) = spec_kids ?ps"
    by (auto simp: build_state_def spec_roots_def spec_kids_def)
  then show ?thesis
    by (simp add: build_tree_def spec_tree_def Let_def sort_pages_spec_sort [symmetric])
qed

lemma four_pages_tree:
  "build_tree four_pages =
     [Page \<lparr>pid = ''1'', ptitle = ''One'', plevel = 0, porder = 0\<rparr>
        [Page \<lparr>pid = ''2'', ptitle = ''Two'', plevel = 1, porder = 1\<rparr> [],
         Page \<lparr>pid = ''3'', ptitle = ''Three'', plevel = 1, porder = 2\<rparr> []],
      Page \<lparr>pid = ''4'', ptitle = ''Four'', plevel = 0, porder = 3\<rparr> []]"
  by code_simp

lemma orphan_page_tree:
  "build_tree orphan_page = [Page \<lparr>pid = ''1'', ptitle = ''One'', plevel = 2, porder = 0\<rparr> []]"
  by code_simp

lemma shuffled_pages_tree:
  "spec_tree shuffled_pages =
     [Page \<lparr>pid = ''1'', ptitle = ''One'', plevel = 0, porder = 0\<rparr>
        [Page \<lparr>pid = ''2'', ptitle = ''Two'', plevel = 1, porder = 1\<rparr> [],
         Page \<lparr>pid = ''3'', ptitle = ''Three'', plevel = 1, porder = 2\<rparr> [],
         Page \<lparr>pid = ''5'', ptitle = ''Five'', plevel = 1, porder = 2\<rparr> []],
      Page \<lparr>pid = ''4'', ptitle = ''Four'', plevel = 0, porder = 3\<rparr> []]"
  by code_simp

text \<open>
  Claim C2. The tree builder is to compute the reference algorithm: it sorts the records
  stably by order and level and walks them in that order; a record at level 0 becomes a
  root; a record at a level above 0 becomes the last child of the record processed last
  before it whose level is one less, or a root if there is no such record. The code does
  so for every listing whose ids are pairwise distinct and whose levels are not negative,
  in whatever order the listing comes; for the four sample records it returns the two
  roots 1 and 4, with the children 2 and 3 of 1 in that order, and for the single
  record at level 2 it returns that record as a root. It does not do so when two records
  carry the same id: the second takes the place of the first in \<open>page_map\<close>, so the
  scan in reverse insertion order meets the records in another order than they were
  processed in. In the sample listing the page \<open>D\<close> at level 1 becomes a child of
  \<open>B\<close>, while the record at level 0 processed last before it is \<open>C\<close>, which is
  the parent by the reference algorithm and by the comment on lines 238 and 239.
\<close>

theorem tree_builder_against_reference:
  "(distinct (map pid all_pages) \<and> (\<forall>p\<in>set all_pages. 0 \<le> plevel p) \<longrightarrow>
      build_tree all_pages = spec_tree all_pages) \<and>
   build_tree four_pages =
     [Page \<lparr>pid = ''1'', ptitle = ''One'', plevel = 0, porder = 0\<rparr>
        [Page \<lparr>pid = ''2'', ptitle = ''Two'', plevel = 1, porder = 1\<rparr> [],
         Page \<lparr>pid = ''3'', ptitle = ''Three'', plevel = 1, porder = 2\<rparr> []],
      Page \<lparr>pid = ''4'', ptitle = ''Four'', plevel = 0, porder = 3\<rparr> []] \<and>
   build_tree orphan_page = [Page \<lparr>pid = ''1'', ptitle = ''One'', plevel = 2, porder = 0\<rparr> []] \<and>
   build_tree repeated_id_pages =
     [Page \<lparr>pid = ''x'', ptitle = ''A'', plevel = 0, porder = 0\<rparr> [],
      Page \<lparr>pid = ''y'', ptitle = ''B'', plevel = 0, porder = 1\<rparr>
        [Page \<lparr>pid = ''z'', ptitle = ''D'', plevel = 1, porder = 3\<rparr> []],
      Page \<lparr>pid = ''x'', ptitle = ''C'', plevel = 0, porder = 2\<rparr> []] \<and>
   spec_tree repeated_id_pages =
     [Page \<lparr>pid = ''x'', ptitle = ''A'', plevel = 0, porder = 0\<rparr> [],
      Page \<lparr>pid = ''y'', ptitle = ''B'', plevel = 0, porder = 1\<rparr> [],
      Page \<lparr>pid = ''x'', ptitle = ''C'', plevel = 0, porder = 2\<rparr>
        [Page \<lparr>pid = ''z'', ptitle = ''D'', plevel = 1, porder = 3\<rparr> []]]"
proof -
  have "build_tree repeated_id_pages =
     [Page \<lparr>pid = ''x'', ptitle = ''A'', plevel = 0, porder = 0\<rparr> [],
      Page \<lparr>pid = ''y'', ptitle = ''B'', plevel = 0, porder = 1\<rparr>
        [Page \<lparr>pid = ''z'', ptitle = ''D'', plevel = 1, porder = 3\<rparr> []],
      Page \<lparr>pid = ''x'', ptitle = ''C'', plevel = 0, porder = 2\<rparr> []]"
    by code_simp
  moreover have "spec_tree repeated_id_pages =
     [Page \<lparr>pid = ''x'', ptitle = ''A'', plevel = 0, porder = 0\<rparr> [],
      Page \<lparr>pid = ''y'', ptitle = ''B'', plevel = 0, porder = 1\<rparr> [],
      Page \<lparr>pid = ''x'', ptitle = ''C'', plevel = 0, porder = 2\<rparr>
        [Page \<lparr>pid = ''z'', ptitle = ''D'', plevel = 1, porder = 3\<rparr> []]]"
    by code_simp
  ultimately show ?thesis
    using build_tree_eq_spec_tree [of all_pages] four_pages_tree orphan_page_tree by blast
qed

theorem tree_builder_against_reference_witness:
  "distinct (map pid shuffled_pages) \<and> list_all (\<lambda>p. 0 \<le> plevel p) shuffled_pages \<and>
   build_tree shuffled_pages =
     [Page \<lparr>pid = ''1'', ptitle = ''One'', plevel = 0, porder = 0\<rparr>
        [Page \<lparr>pid = ''2'', ptitle = ''Two'', plevel = 1, porder = 1\<rparr> [],
         Page \<lparr>pid = ''3'', ptitle = ''Three'', plevel = 1, porder = 2\<rparr> [],
         Page \<lparr>pid = ''5'', ptitle = ''Five'', plevel = 1, porder = 2\<rparr> []],
      Page \<lparr>pid = ''4'', ptitle = ''Four'', plevel = 0, porder = 3\<rparr> []]"
proof -
  have d: "distinct (map pid shuffled_pages)" by (simp add: shuffled_pages_def)
  have l: "\<forall>p\<in>set shuffled_pages. 0 \<le> plevel p" by (simp add: shuffled_pages_def)
  from d l tree_builder_against_reference [of shuffled_pages]
  have "build_tree shuffled_pages = spec_tree shuffled_pages" by blast
  with d l show ?thesis by (simp add: shuffled_pages_tree list_all_iff)
qed

subsection \<open>Listing the pages of a section\<close>

lemma fetch_pages_no_count:
  "fetch_pages (paging_server ps False) [] 0 0 = Some (Inr (take 100 ps))"
  by (subst fetch_pages.simps) (simp add: paging_server_def)

text \<open>
  When every response carries the number of all pages, the loop fetches batch after
  batch and returns every page of the section.
\<close>

lemma fetch_pages_with_count_from:
  "s \<le> length ps \<Longrightarrow> fetch_pages (paging_server ps True) (take s ps) s s = Some (Inr ps)"
proof (induction "length ps - s" arbitrary: s rule: less_induct)
  case less
  let ?batch = "take 100 (drop s ps)"
  have batch: "take s ps @ ?batch = take (s + 100) ps"
    by (simp add: take_add)
  show ?case
  proof (cases "s = length ps")
    case True
    then show ?thesis by (subst fetch_pages.simps) (simp add: paging_server_def)
  next
    case False
    with less.prems have s: "s < length ps" by simp
    then have ne: "?batch \<noteq> []" by simp
    have len: "length ?batch = min 100 (length ps - s)" by simp
    show ?thesis
    proof (cases "length ps - s \<le> 100")
      case True
      then have "take (s + 100) ps = ps" by simp
      with True s ne batch show ?thesis
        by (subst fetch_pages.simps) (simp add: paging_server_def min_def)
    next
      case False
      then have more: "s + 100 < length ps" by simp
      then have "length ps - (s + 100) < length ps - s" by simp
      from less.hyps [OF this] more
      have "fetch_pages (paging_server ps True) (take (s + 100) ps) (s + 100) (s + 100) =
          Some (Inr ps)"
        by simp
      with False s ne batch more show ?thesis
        by (subst fetch_pages.simps) (simp add: paging_server_def min_def)
    qed
  qed
qed

lemma fetch_pages_with_count: "fetch_pages (paging_server ps True) [] 0 0 = Some (Inr ps)"
  using fetch_pages_with_count_from [of 0 ps] by simp

lemma numbered_page_inj: "numbered_page i = numbered_page j \<Longrightarrow> i = j"
proof -
  assume "numbered_page i = numbered_page j"
  then have "porder (numbered_page i) = porder (numbered_page j)" by simp
  then show ?thesis by (simp add: numbered_page_def)
qed

lemma first_batch_of_101: "take 100 section_of_101 = map numbered_page [0..<100]"
  by (simp add: section_of_101_def take_map)

text \<open>
  Claim C1 says that \<open>get_pages\<close> retrieves all pages of a section, and that it keeps
  fetching until a batch is empty when the responses carry no count. The source stops
  after the first batch in that case: with no count the test
  \<open>total_count and page_count < total_count\<close> fails, and the loop is left. For a
  section of 101 pages behind an endpoint that sends no count, \<open>get_pages\<close> returns the
  tree of the first 100 pages, and the last page of the section is in no node of it.
\<close>

theorem get_pages_stops_without_count:
  "get_pages no_count_env ''section'' = Some (Inr (build_tree (take 100 section_of_101))) \<and>
   numbered_page 100 \<in> set section_of_101 \<and>
   numbered_page 100 \<notin> set (concat (map flatten (build_tree (take 100 section_of_101))))"
proof -
  have ne: "take 100 section_of_101 \<noteq> []"
    by (simp add: first_batch_of_101)
  have 1: "get_pages no_count_env ''section'' = Some (Inr (build_tree (take 100 section_of_101)))"
    using ne by (simp add: get_pages_def no_count_env_def fetch_pages_no_count)
  have 2: "numbered_page 100 \<in> set section_of_101"
    by (simp add: section_of_101_def)
  have "set (concat (map flatten (build_tree (take 100 section_of_101)))) =
      set (take 100 section_of_101)"
    using build_tree_flatten [of "take 100 section_of_101"] by (rule mset_eq_setD)
  moreover have "numbered_page 100 \<notin> set (take 100 section_of_101)"
    unfolding first_batch_of_101 using numbered_page_inj [of 100] by auto
  ultimately have 3: "numbered_page 100 \<notin>
      set (concat (map flatten (build_tree (take 100 section_of_101))))"
    by simp
  from 1 2 3 show ?thesis by simp
qed

end
